theory Spec2Isabelle
  imports Complex_Main "HOL-Library.Word" "HOL-Library.Multiset"
begin

unbundle bit_operations_syntax

section \<open>Hasher: \<^verbatim>\<open>shazam/fingerprint.py\<close>\<close>

subsection \<open>Text form of the hash input\<close>

text \<open>
  Python's \<^verbatim>\<open>str(n)\<close> of an integer, as the f-string \<^verbatim>\<open>f"{f1}|{f2}|{delta_t}"\<close>
  applies it: decimal digits, most significant first, a leading minus sign for a
  negative number.
\<close>

definition digit_char :: "nat \<Rightarrow> char" where
  "digit_char d = ''0123456789'' ! d"

fun str_nat :: "nat \<Rightarrow> string" where
  "str_nat n = (if n < 10 then [digit_char n] else str_nat (n div 10) @ [digit_char (n mod 10)])"

declare str_nat.simps [simp del]

definition str_int :: "int \<Rightarrow> string" where
  "str_int i = (if i < 0 then CHR ''-'' # str_nat (nat (- i)) else str_nat (nat i))"

text \<open>
  \<^verbatim>\<open>hash_input.encode()\<close>: UTF-8 of a text made of digits, minus signs and bars
  only, one byte per character.
\<close>

type_synonym byte = "8 word"

definition encode :: "string \<Rightarrow> byte list" where
  "encode s = map (\<lambda>c. of_char c) s"

subsection \<open>SHA-1 (\<^verbatim>\<open>hashlib.sha1(...).hexdigest()\<close>)\<close>

text \<open>
  The digest of the standard library, written out after FIPS 180-4: the message is
  padded with a one bit, zero bits and its length in bits as a 64-bit big-endian
  number to a multiple of 64 bytes; each 64-byte block is read as sixteen big-endian
  32-bit words, expanded to eighty, and mixed into the five chaining words in eighty
  rounds.
\<close>

type_synonym u32 = "32 word"

definition rotl :: "nat \<Rightarrow> u32 \<Rightarrow> u32" where
  "rotl n w = (push_bit n w) OR (drop_bit (32 - n) w)"

definition be64 :: "64 word \<Rightarrow> byte list" where
  "be64 w = [ucast (drop_bit 56 w), ucast (drop_bit 48 w), ucast (drop_bit 40 w),
             ucast (drop_bit 32 w), ucast (drop_bit 24 w), ucast (drop_bit 16 w),
             ucast (drop_bit 8 w), ucast w]"

definition sha1_pad :: "byte list \<Rightarrow> byte list" where
  "sha1_pad m = m @ [0x80] @ replicate ((119 - length m mod 64) mod 64) 0
                  @ be64 (of_nat (8 * length m))"

definition be_word :: "byte list \<Rightarrow> u32" where
  "be_word bs = foldl (\<lambda>acc b. push_bit 8 acc OR ucast b) 0 bs"

fun words_of :: "byte list \<Rightarrow> u32 list" where
  "words_of (a # b # c # d # rest) = be_word [a, b, c, d] # words_of rest"
| "words_of _ = []"

fun schedule :: "nat \<Rightarrow> u32 list \<Rightarrow> u32 list" where
  "schedule 0 w = w"
| "schedule (Suc k) w =
     (let n = length w in
      schedule k (w @ [rotl 1 (w ! (n - 3) XOR w ! (n - 8) XOR w ! (n - 14) XOR w ! (n - 16))]))"

definition round_f :: "nat \<Rightarrow> u32 \<Rightarrow> u32 \<Rightarrow> u32 \<Rightarrow> u32" where
  "round_f i b c d =
     (if i < 20 then (b AND c) OR (NOT b AND d)
      else if i < 40 then b XOR c XOR d
      else if i < 60 then (b AND c) OR (b AND d) OR (c AND d)
      else b XOR c XOR d)"

definition round_k :: "nat \<Rightarrow> u32" where
  "round_k i =
     (if i < 20 then 0x5A827999
      else if i < 40 then 0x6ED9EBA1
      else if i < 60 then 0x8F1BBCDC
      else 0xCA62C1D6)"

type_synonym sha1_state = "u32 \<times> u32 \<times> u32 \<times> u32 \<times> u32"

fun rounds :: "nat \<Rightarrow> u32 list \<Rightarrow> sha1_state \<Rightarrow> sha1_state" where
  "rounds i [] s = s"
| "rounds i (w # ws) (a, b, c, d, e) =
     rounds (Suc i) ws (rotl 5 a + round_f i b c d + e + round_k i + w, a, rotl 30 b, c, d)"

definition compress :: "sha1_state \<Rightarrow> byte list \<Rightarrow> sha1_state" where
  "compress h block =
     (case h of (h0, h1, h2, h3, h4) \<Rightarrow>
        (case rounds 0 (schedule 64 (words_of block)) h of (a, b, c, d, e) \<Rightarrow>
           (h0 + a, h1 + b, h2 + c, h3 + d, h4 + e)))"

fun blocks :: "nat \<Rightarrow> sha1_state \<Rightarrow> byte list \<Rightarrow> sha1_state" where
  "blocks 0 h bs = h"
| "blocks (Suc k) h bs = blocks k (compress h (take 64 bs)) (drop 64 bs)"

definition sha1 :: "byte list \<Rightarrow> sha1_state" where
  "sha1 m = (let p = sha1_pad m in
     blocks (length p div 64) (0x67452301, 0xEFCDAB89, 0x98BADCFE, 0x10325476, 0xC3D2E1F0) p)"

definition hex_char :: "nat \<Rightarrow> char" where
  "hex_char d = ''0123456789abcdef'' ! d"

definition nibble :: "nat \<Rightarrow> u32 \<Rightarrow> char" where
  "nibble k w = hex_char (unat (drop_bit k w AND 15))"

definition hex_word :: "u32 \<Rightarrow> string" where
  "hex_word w = [nibble 28 w, nibble 24 w, nibble 20 w, nibble 16 w,
                 nibble 12 w, nibble 8 w, nibble 4 w, nibble 0 w]"

definition hexdigest :: "sha1_state \<Rightarrow> string" where
  "hexdigest s = (case s of (a, b, c, d, e) \<Rightarrow>
     hex_word a @ hex_word b @ hex_word c @ hex_word d @ hex_word e)"

subsection \<open>\<^verbatim>\<open>generate_hashes\<close>\<close>

definition TARGET_ZONE_START :: int where
  "TARGET_ZONE_START = 1"

definition TARGET_ZONE_END :: int where
  "TARGET_ZONE_END = 200"

definition FAN_OUT :: nat where
  "FAN_OUT = 15"

type_synonym peak = "int \<times> int"

text \<open>A hash tuple \<^verbatim>\<open>(hash_string, anchor_time, song_id)\<close>; the song id may be \<^verbatim>\<open>None\<close>.\<close>

type_synonym hash_tuple = "string \<times> int \<times> int option"

text \<open>
  Lines 42 and 43: \<^verbatim>\<open>hashlib.sha1(f"{f1}|{f2}|{delta_t}".encode()).hexdigest()[:20]\<close>.
\<close>

definition hash_input :: "int \<Rightarrow> int \<Rightarrow> int \<Rightarrow> string" where
  "hash_input f1 f2 delta_t = str_int f1 @ ''|'' @ str_int f2 @ ''|'' @ str_int delta_t"

definition hash_value :: "int \<Rightarrow> int \<Rightarrow> int \<Rightarrow> string" where
  "hash_value f1 f2 delta_t = take 20 (hexdigest (sha1 (encode (hash_input f1 f2 delta_t))))"

text \<open>
  Line 19: \<^verbatim>\<open>sorted(peaks, key=lambda x: x[0])\<close>. Python's sort is stable and the key
  is the time alone; \<open>sort_key\<close> is the stable insertion sort on that key.
\<close>

definition sort_peaks :: "peak list \<Rightarrow> peak list" where
  "sort_peaks peaks = sort_key fst peaks"

text \<open>
  The inner loop (lines 25 to 37) over the peaks after the anchor, with the list
  \<^verbatim>\<open>targets\<close> built so far: \<^verbatim>\<open>continue\<close> below the zone, \<^verbatim>\<open>break\<close> above it and
  once \<^verbatim>\<open>FAN_OUT\<close> targets are collected.
\<close>

fun find_targets :: "int \<Rightarrow> peak list \<Rightarrow> (int \<times> int \<times> int) list \<Rightarrow> (int \<times> int \<times> int) list" where
  "find_targets t1 [] targets = targets"
| "find_targets t1 ((t2, f2) # rest) targets =
     (let delta_t = t2 - t1 in
      if delta_t < TARGET_ZONE_START then find_targets t1 rest targets
      else if delta_t > TARGET_ZONE_END then targets
      else (let targets' = targets @ [(t2, f2, delta_t)] in
            if length targets' \<ge> FAN_OUT then targets'
            else find_targets t1 rest targets'))"

text \<open>The second inner loop (lines 40 to 44): one tuple per collected target.\<close>

definition anchor_hashes :: "int \<Rightarrow> int \<Rightarrow> int option \<Rightarrow> (int \<times> int \<times> int) list \<Rightarrow> hash_tuple list" where
  "anchor_hashes t1 f1 sid targets =
     map (\<lambda>(t2, f2, delta_t). (hash_value f1 f2 delta_t, t1, sid)) targets"

text \<open>The outer loop (line 22) over the sorted peaks, with the list \<^verbatim>\<open>hashes\<close> so far.\<close>

fun anchor_loop :: "peak list \<Rightarrow> int option \<Rightarrow> hash_tuple list \<Rightarrow> hash_tuple list" where
  "anchor_loop [] sid hashes = hashes"
| "anchor_loop ((t1, f1) # rest) sid hashes =
     anchor_loop rest sid (hashes @ anchor_hashes t1 f1 sid (find_targets t1 rest []))"

definition generate_hashes :: "peak list \<Rightarrow> int option \<Rightarrow> hash_tuple list" where
  "generate_hashes peaks sid = anchor_loop (sort_peaks peaks) sid []"

section \<open>Index store: \<^verbatim>\<open>shazam/database.py\<close>\<close>

text \<open>
  The two tables as lists of rows in insertion order, and the counter SQLite keeps for
  an \<^verbatim>\<open>AUTOINCREMENT\<close> key (the largest row id handed out so far). Text and integer
  columns hold Python's values as they are.
\<close>

record database =
  songs :: "(int \<times> string) list"
  fingerprints :: "(string \<times> int \<times> int) list"
  sqlite_sequence :: int

text \<open>\<^verbatim>\<open>_init_db\<close> on a fresh file: both tables exist and are empty.\<close>

definition init_db :: database where
  "init_db = \<lparr>songs = [], fingerprints = [], sqlite_sequence = 0\<rparr>"

text \<open>
  \<^verbatim>\<open>cursor.lastrowid\<close> after the insert into \<^verbatim>\<open>songs\<close>: one more than the largest id
  that is or ever was in the table.
\<close>

definition next_rowid :: "database \<Rightarrow> int" where
  "next_rowid db = fold max (map fst (songs db)) (sqlite_sequence db) + 1"

definition insert_song :: "string \<Rightarrow> hash_tuple list \<Rightarrow> database \<Rightarrow> int \<times> database" where
  "insert_song name hashes db =
     (let sid = next_rowid db;
          fingerprint_data = map (\<lambda>(h, t, _). (h, sid, t)) hashes
      in (sid, db\<lparr>songs := songs db @ [(sid, name)],
                  fingerprints := fingerprints db @ fingerprint_data,
                  sqlite_sequence := sid\<rparr>))"

text \<open>\<^verbatim>\<open>SELECT song_id, time_offset FROM fingerprints WHERE hash = ?\<close>\<close>

definition select_by_hash :: "string \<Rightarrow> database \<Rightarrow> (int \<times> int) list" where
  "select_by_hash hash_val db =
     map (\<lambda>(h, sid, t). (sid, t)) (filter (\<lambda>(h, sid, t). h = hash_val) (fingerprints db))"

definition query :: "hash_tuple list \<Rightarrow> database \<Rightarrow> (int \<times> int \<times> int) list" where
  "query hashes db =
     concat (map (\<lambda>(hash_val, query_offset, _).
                    map (\<lambda>(sid, db_offset). (sid, db_offset, query_offset))
                        (select_by_hash hash_val db)) hashes)"

text \<open>\<^verbatim>\<open>SELECT name FROM songs WHERE id = ?\<close> and \<^verbatim>\<open>fetchone\<close>: the first such row.\<close>

definition get_song :: "int \<Rightarrow> database \<Rightarrow> string option" where
  "get_song sid db = map_of (songs db) sid"

text \<open>The stores that the program can build: a fresh one, and any after an insert.\<close>

inductive reachable :: "database \<Rightarrow> bool" where
  reachable_init: "reachable init_db"
| reachable_insert: "reachable db \<Longrightarrow> reachable (snd (insert_song name hashes db))"

section \<open>Matcher: \<^verbatim>\<open>shazam/matcher.py\<close>\<close>

definition MIN_MATCHES :: nat where
  "MIN_MATCHES = 5"

record MatchResult =
  song_id :: int
  song_name :: "string option"
  confidence :: real
  aligned_matches :: nat

datatype py_error = ValueError | ZeroDivisionError

text \<open>
  \<^verbatim>\<open>alignment_counts\<close>, a \<^verbatim>\<open>defaultdict(int)\<close>: a dictionary keeps its keys in the order
  of their first insertion, so it is a list of keys with their counts.
  \<^verbatim>\<open>alignment_counts[key] += 1\<close> is \<open>bump\<close>.
\<close>

type_synonym alignment_key = "int \<times> int"

fun bump :: "'k \<Rightarrow> ('k \<times> nat) list \<Rightarrow> ('k \<times> nat) list" where
  "bump k [] = [(k, 1)]"
| "bump k ((k', c) # rest) = (if k' = k then (k', c + 1) # rest else (k', c) # bump k rest)"

fun count_alignments ::
  "(int \<times> int \<times> int) list \<Rightarrow> (alignment_key \<times> nat) list \<Rightarrow> (alignment_key \<times> nat) list" where
  "count_alignments [] ac = ac"
| "count_alignments ((sid, db_offset, query_offset) # rest) ac =
     (let time_diff = db_offset - query_offset in
      count_alignments rest (bump (sid, time_diff) ac))"

text \<open>
  \<^verbatim>\<open>max(alignment_counts, key=alignment_counts.get)\<close>: the first key, in the order of
  the dictionary, whose count no other exceeds; \<^verbatim>\<open>ValueError\<close> on an empty dictionary.
\<close>

fun max_from :: "('k \<times> nat) \<Rightarrow> ('k \<times> nat) list \<Rightarrow> ('k \<times> nat)" where
  "max_from best [] = best"
| "max_from best (kv # rest) = max_from (if snd kv > snd best then kv else best) rest"

definition max_key :: "('k \<times> nat) list \<Rightarrow> py_error + ('k \<times> nat)" where
  "max_key ac = (case ac of [] \<Rightarrow> Inl ValueError | kv # rest \<Rightarrow> Inr (max_from kv rest))"

text \<open>Lines 34 to 63 of \<^verbatim>\<open>find_matches\<close>: what it does with the rows the probe returned.\<close>

definition score_matches ::
  "hash_tuple list \<Rightarrow> (int \<times> int \<times> int) list \<Rightarrow> database \<Rightarrow> py_error + MatchResult option" where
  "score_matches query_hashes matches db =
     (if matches = [] then Inr None
      else
        (let alignment_counts = count_alignments matches [] in
         case max_key alignment_counts of
           Inl e \<Rightarrow> Inl e
         | Inr (best_key, best_count) \<Rightarrow>
             (let best_song_id = fst best_key in
              if best_count < MIN_MATCHES then Inr None
              else if length query_hashes = 0 then Inl ZeroDivisionError
              else Inr (Some \<lparr>song_id = best_song_id,
                              song_name = get_song best_song_id db,
                              confidence = real best_count / real (length query_hashes),
                              aligned_matches = best_count\<rparr>))))"

definition find_matches :: "hash_tuple list \<Rightarrow> database \<Rightarrow> py_error + MatchResult option" where
  "find_matches query_hashes db =
     (if query_hashes = [] then Inr None
      else score_matches query_hashes (query query_hashes db) db)"

section \<open>Peak picker: \<^verbatim>\<open>shazam/peaks.py\<close>\<close>

text \<open>
  A spectrogram is a rectangular array indexed by frequency bin, then time frame: a list
  of rows. Magnitudes are real numbers here; the program holds them as floating-point
  numbers, and compares them with \<open>=\<close> and \<open>>\<close> as below.
\<close>

type_synonym spectrogram = "real list list"

definition NEIGHBORHOOD_SIZE :: nat where
  "NEIGHBORHOOD_SIZE = 20"

text \<open>
  \<^verbatim>\<open>scipy.ndimage.maximum_filter(spectrogram, size=20)\<close> with its defaults: the window
  of a cell reaches from \<open>size div 2\<close> cells before it to \<open>size - size div 2 - 1\<close> cells
  after it along each axis, and an index outside the array is mirrored at the edge
  (mode \<^verbatim>\<open>reflect\<close>: \<^verbatim>\<open>d c b a | a b c d | d c b a\<close>).
\<close>

definition reflect :: "nat \<Rightarrow> int \<Rightarrow> nat" where
  "reflect n j = (let m = j mod (2 * int n) in nat (if m < int n then m else 2 * int n - 1 - m))"

definition window :: "nat \<Rightarrow> nat \<Rightarrow> nat \<Rightarrow> nat list" where
  "window sz n i = map (\<lambda>d. reflect n (int i - int (sz div 2) + int d)) [0..<sz]"

definition neighbourhood :: "spectrogram \<Rightarrow> nat \<Rightarrow> nat \<Rightarrow> nat \<Rightarrow> real list" where
  "neighbourhood S sz f t =
     concat (map (\<lambda>f'. map (\<lambda>t'. S ! f' ! t') (window sz (length (S ! f)) t))
                 (window sz (length S) f))"

definition maximum_filter :: "spectrogram \<Rightarrow> nat \<Rightarrow> spectrogram" where
  "maximum_filter S sz =
     map (\<lambda>f. map (\<lambda>t. (let cells = neighbourhood S sz f t in fold max (tl cells) (hd cells)))
                  [0..<length (S ! f)])
         [0..<length S]"

text \<open>
  \<^verbatim>\<open>np.mean\<close> and \<^verbatim>\<open>np.std\<close> over all cells (the population standard deviation).
  On an array without cells NumPy gives \<^verbatim>\<open>nan\<close> for both and HOL gives 0; there is then
  no cell to compare with the threshold.
\<close>

definition np_mean :: "spectrogram \<Rightarrow> real" where
  "np_mean S = sum_list (concat S) / real (length (concat S))"

definition np_std :: "spectrogram \<Rightarrow> real" where
  "np_std S = sqrt (sum_list (map (\<lambda>x. (x - np_mean S)\<^sup>2) (concat S)) / real (length (concat S)))"

text \<open>
  \<^verbatim>\<open>np.where(is_peak)\<close> lists the cells row by row, and \<^verbatim>\<open>zip\<close> swaps each to
  \<^verbatim>\<open>(time_idx, freq_idx)\<close>.
\<close>

definition find_peaks :: "spectrogram \<Rightarrow> real option \<Rightarrow> (nat \<times> nat) list" where
  "find_peaks S amp_min =
     (let local_max = maximum_filter S NEIGHBORHOOD_SIZE;
          amp = (case amp_min of None \<Rightarrow> np_mean S + 2 * np_std S | Some a \<Rightarrow> a)
      in concat (map (\<lambda>f. map (\<lambda>t. (t, f))
                              (filter (\<lambda>t. S ! f ! t = local_max ! f ! t \<and> S ! f ! t > amp)
                                      [0..<length (S ! f)]))
                     [0..<length S]))"

section \<open>The vote, as the specification words it\<close>

text \<open>
  The alignment key of a probe row \<open>(song_id, t_db, t_query)\<close> is
  \<open>(song_id, t_db - t_query)\<close>; the vote count of a key is the number of rows with
  that key; \<open>best_votes\<close> is the largest vote count of any key that occurs.
  \<open>count_of\<close> reads a count out of the dictionary, 0 for a key that is not in it.
\<close>

definition alignment_key_of :: "int \<times> int \<times> int \<Rightarrow> alignment_key" where
  "alignment_key_of m = (fst m, fst (snd m) - snd (snd m))"

definition votes :: "(int \<times> int \<times> int) list \<Rightarrow> alignment_key \<Rightarrow> nat" where
  "votes ms k = count_list (map alignment_key_of ms) k"

definition best_votes :: "(int \<times> int \<times> int) list \<Rightarrow> nat" where
  "best_votes ms = Max (set (map (votes ms) (map alignment_key_of ms)))"

definition count_of :: "('k \<times> nat) list \<Rightarrow> 'k \<Rightarrow> nat" where
  "count_of ac k = (case map_of ac k of None \<Rightarrow> 0 | Some c \<Rightarrow> c)"

section \<open>Properties of the hasher\<close>

subsection \<open>Sizes\<close>

lemma find_targets_length:
  "length targets < FAN_OUT \<Longrightarrow> length (find_targets t1 rest targets) \<le> FAN_OUT"
  by (induction rest arbitrary: targets) (auto simp: Let_def)

lemma anchor_loop_length:
  "length (anchor_loop ps sid hashes) \<le> length hashes + FAN_OUT * length ps"
proof (induction ps arbitrary: hashes)
  case Nil
  then show ?case by simp
next
  case (Cons p ps)
  obtain t1 f1 where p: "p = (t1, f1)" by (cases p)
  have "length (find_targets t1 ps []) \<le> FAN_OUT"
    by (rule find_targets_length) (simp add: FAN_OUT_def)
  then have "length (hashes @ anchor_hashes t1 f1 sid (find_targets t1 ps [])) \<le> length hashes + FAN_OUT"
    by (simp add: anchor_hashes_def)
  with Cons.IH [of "hashes @ anchor_hashes t1 f1 sid (find_targets t1 ps [])"]
  show ?case by (simp add: p)
qed

lemma length_sort_peaks: "length (sort_peaks P) = length P"
  by (simp add: sort_peaks_def)

text \<open>
  Claim C4. For every peak list \<open>P\<close> the number of tuples that \<^verbatim>\<open>generate_hashes\<close>
  emits is at most \<open>FAN_OUT * |P|\<close> with \<open>FAN_OUT = 15\<close>: every anchor stops after at
  most fifteen accepted targets and emits one tuple for each.
\<close>

theorem generate_hashes_fan_out_bound:
  "length (generate_hashes P sid) \<le> 15 * length P
   \<and> length (find_targets t1 rest []) \<le> 15 \<and> FAN_OUT = 15"
proof -
  have "length (generate_hashes P sid) \<le> FAN_OUT * length P"
    using anchor_loop_length [of "sort_peaks P" sid "[]"]
    by (simp add: generate_hashes_def length_sort_peaks)
  moreover have "length (find_targets t1 rest []) \<le> FAN_OUT"
    by (rule find_targets_length) (simp add: FAN_OUT_def)
  ultimately show ?thesis by (simp add: FAN_OUT_def)
qed

subsection \<open>Where the tuples come from\<close>

lemma find_targets_set:
  "x \<in> set (find_targets t1 rest targets) \<Longrightarrow>
   x \<in> set targets \<or>
   (\<exists>t2 f2. x = (t2, f2, t2 - t1) \<and> (t2, f2) \<in> set rest \<and> 1 \<le> t2 - t1 \<and> t2 - t1 \<le> 200)"
proof (induction rest arbitrary: targets)
  case Nil
  then show ?case by simp
next
  case (Cons p rest)
  obtain t2 f2 where p: "p = (t2, f2)" by (cases p)
  show ?case
  proof (cases "t2 - t1 < TARGET_ZONE_START")
    case True
    with Cons.prems p have "x \<in> set (find_targets t1 rest targets)" by simp
    from Cons.IH [OF this] show ?thesis by auto
  next
    case low: False
    show ?thesis
    proof (cases "t2 - t1 > TARGET_ZONE_END")
      case True
      with low Cons.prems p show ?thesis by simp
    next
      case high: False
      from low high have zone: "1 \<le> t2 - t1" "t2 - t1 \<le> 200"
        by (simp_all add: TARGET_ZONE_START_def TARGET_ZONE_END_def)
      show ?thesis
      proof (cases "length (targets @ [(t2, f2, t2 - t1)]) \<ge> FAN_OUT")
        case True
        with low high Cons.prems p have "x \<in> set (targets @ [(t2, f2, t2 - t1)])"
          by (simp add: Let_def)
        with zone p show ?thesis by auto
      next
        case False
        with low high Cons.prems p
        have "x \<in> set (find_targets t1 rest (targets @ [(t2, f2, t2 - t1)]))"
          by (simp add: Let_def)
        from Cons.IH [OF this] zone p show ?thesis by auto
      qed
    qed
  qed
qed

lemma anchor_loop_set:
  "x \<in> set (anchor_loop ps sid hashes) \<Longrightarrow>
   x \<in> set hashes \<or>
   (\<exists>t1 f1 t2 f2. (t1, f1) \<in> set ps \<and> (t2, f2) \<in> set ps \<and> 1 \<le> t2 - t1 \<and> t2 - t1 \<le> 200
      \<and> x = (hash_value f1 f2 (t2 - t1), t1, sid))"
proof (induction ps arbitrary: hashes)
  case Nil
  then show ?case by simp
next
  case (Cons p ps)
  obtain t1 f1 where p: "p = (t1, f1)" by (cases p)
  from Cons.prems p
  have "x \<in> set (anchor_loop ps sid (hashes @ anchor_hashes t1 f1 sid (find_targets t1 ps [])))"
    by simp
  from Cons.IH [OF this] consider
    (old) "x \<in> set hashes"
    | (new) "x \<in> set (anchor_hashes t1 f1 sid (find_targets t1 ps []))"
    | (later) "\<exists>t1 f1 t2 f2. (t1, f1) \<in> set ps \<and> (t2, f2) \<in> set ps \<and> 1 \<le> t2 - t1 \<and> t2 - t1 \<le> 200
      \<and> x = (hash_value f1 f2 (t2 - t1), t1, sid)"
    by auto
  then show ?case
  proof cases
    case old
    then show ?thesis by simp
  next
    case new
    then obtain y where y: "y \<in> set (find_targets t1 ps [])"
      and x: "x = (case y of (t2, f2, delta_t) \<Rightarrow> (hash_value f1 f2 delta_t, t1, sid))"
      by (auto simp: anchor_hashes_def)
    from find_targets_set [OF y] obtain t2 f2 where
      "y = (t2, f2, t2 - t1)" "(t2, f2) \<in> set ps" "1 \<le> t2 - t1" "t2 - t1 \<le> 200"
      by auto
    with x p show ?thesis by (intro disjI2 exI [of _ t1] exI [of _ f1] exI [of _ t2] exI [of _ f2]) simp
  next
    case later
    then show ?thesis by auto
  qed
qed

lemma set_sort_peaks: "set (sort_peaks P) = set P"
  by (simp add: sort_peaks_def)

text \<open>
  Claim C3. Every tuple \<open>(H, t_anchor, sid)\<close> that \<^verbatim>\<open>generate_hashes\<close> emits has the
  time of a peak \<open>(t1, f1)\<close> of the input as its anchor time and comes from a target
  peak \<open>(t2, f2)\<close> of the input with \<open>1 \<le> t2 - t1 \<le> 200\<close>. A single peak gives no
  tuple, and neither does a pair of peaks whose times differ by 0 or by 201.
\<close>

theorem generate_hashes_target_zone:
  "(\<forall>(H, t_anchor, s) \<in> set (generate_hashes P sid).
      \<exists>f1 t2 f2. (t_anchor, f1) \<in> set P \<and> (t2, f2) \<in> set P
        \<and> 1 \<le> t2 - t_anchor \<and> t2 - t_anchor \<le> 200
        \<and> H = hash_value f1 f2 (t2 - t_anchor) \<and> s = sid)
   \<and> generate_hashes [p] sid = []
   \<and> generate_hashes [(t, f1), (t, f2)] sid = []
   \<and> generate_hashes [(t, f1), (t + 201, f2)] sid = []
   \<and> generate_hashes [(t + 201, f2), (t, f1)] sid = []"
proof (intro conjI)
  show "\<forall>(H, t_anchor, s) \<in> set (generate_hashes P sid).
      \<exists>f1 t2 f2. (t_anchor, f1) \<in> set P \<and> (t2, f2) \<in> set P
        \<and> 1 \<le> t2 - t_anchor \<and> t2 - t_anchor \<le> 200
        \<and> H = hash_value f1 f2 (t2 - t_anchor) \<and> s = sid"
  proof (clarify)
    fix H t_anchor s
    assume "(H, t_anchor, s) \<in> set (generate_hashes P sid)"
    then have "(H, t_anchor, s) \<in> set (anchor_loop (sort_peaks P) sid [])"
      by (simp add: generate_hashes_def)
    from anchor_loop_set [OF this]
    show "\<exists>f1 t2 f2. (t_anchor, f1) \<in> set P \<and> (t2, f2) \<in> set P
        \<and> 1 \<le> t2 - t_anchor \<and> t2 - t_anchor \<le> 200
        \<and> H = hash_value f1 f2 (t2 - t_anchor) \<and> s = sid"
      by (auto simp: set_sort_peaks)
  qed
  show "generate_hashes [p] sid = []"
    by (cases p) (simp add: generate_hashes_def sort_peaks_def anchor_hashes_def)
  show "generate_hashes [(t, f1), (t, f2)] sid = []"
    by (simp add: generate_hashes_def sort_peaks_def anchor_hashes_def TARGET_ZONE_START_def)
  show "generate_hashes [(t, f1), (t + 201, f2)] sid = []"
    by (simp add: generate_hashes_def sort_peaks_def anchor_hashes_def
        TARGET_ZONE_START_def TARGET_ZONE_END_def)
  show "generate_hashes [(t + 201, f2), (t, f1)] sid = []"
    by (simp add: generate_hashes_def sort_peaks_def anchor_hashes_def
        TARGET_ZONE_START_def TARGET_ZONE_END_def)
qed

theorem generate_hashes_target_zone_witness:
  "(hash_value 3 5 1, 0, None) \<in> set (generate_hashes [(0, 3), (1, 5)] None)
   \<and> (\<exists>f1 t2 f2. (0, f1) \<in> set [(0, 3), (1, 5 :: int)] \<and> (t2, f2) \<in> set [(0 :: int, 3 :: int), (1, 5)]
        \<and> 1 \<le> t2 - 0 \<and> t2 - 0 \<le> 200
        \<and> hash_value 3 5 1 = hash_value f1 f2 (t2 - 0))"
proof -
  have m: "(hash_value 3 5 1, 0, None) \<in> set (generate_hashes [(0, 3), (1, 5)] None)"
    by (simp add: generate_hashes_def sort_peaks_def anchor_hashes_def
        TARGET_ZONE_START_def TARGET_ZONE_END_def FAN_OUT_def)
  have "\<forall>(H, t_anchor, s) \<in> set (generate_hashes [(0, 3), (1, 5)] None).
      \<exists>f1 t2 f2. (t_anchor, f1) \<in> set [(0, 3), (1, 5)] \<and> (t2, f2) \<in> set [(0, 3), (1, 5)]
        \<and> 1 \<le> t2 - t_anchor \<and> t2 - t_anchor \<le> 200
        \<and> H = hash_value f1 f2 (t2 - t_anchor) \<and> s = None"
    using generate_hashes_target_zone [of "[(0, 3), (1, 5)]" None] by (rule conjunct1)
  from bspec [OF this m] have "\<exists>f1 t2 f2. (0, f1) \<in> set [(0, 3), (1, 5 :: int)] \<and> (t2, f2) \<in> set [(0 :: int, 3 :: int), (1, 5)]
        \<and> 1 \<le> t2 - 0 \<and> t2 - 0 \<le> 200
        \<and> hash_value 3 5 1 = hash_value f1 f2 (t2 - 0)"
    by auto
  with m show ?thesis by (rule conjI)
qed

subsection \<open>The digest on test vectors\<close>

text \<open>
  The digest of \<^verbatim>\<open>abc\<close> is the example of FIPS 180; the digest of \<^verbatim>\<open>3|5|1\<close> starts
  with the token that \<^verbatim>\<open>hashlib\<close> gives for the pair \<open>f1 = 3\<close>, \<open>f2 = 5\<close>, \<open>\<Delta>t = 1\<close>.
  Both messages fit one block; the eighty rounds are evaluated in four parts.
\<close>

lemma replicate_numeral: "replicate (numeral k) x = x # replicate (pred_numeral k) x"
  by (simp add: numeral_eq_Suc)

lemma length_sha1_pad: "length (sha1_pad m) = length m + 9 + (119 - length m mod 64) mod 64"
  by (simp add: sha1_pad_def be64_def)

lemma sha1_one_block:
  "length (sha1_pad m) = 64 \<Longrightarrow>
   sha1 m = compress (0x67452301, 0xEFCDAB89, 0x98BADCFE, 0x10325476, 0xC3D2E1F0) (sha1_pad m)"
  by (simp add: sha1_def Let_def)

lemma schedule_numeral:
  "schedule (numeral k) w =
     schedule (pred_numeral k)
       (w @ [rotl 1 (w ! (length w - 3) XOR w ! (length w - 8) XOR w ! (length w - 14) XOR w ! (length w - 16))])"
  by (simp add: numeral_eq_Suc Let_def)

lemma rounds_append: "rounds i (xs @ ys) s = rounds (i + length xs) ys (rounds i xs s)"
proof (induction xs arbitrary: i s)
  case Nil
  then show ?case by simp
next
  case (Cons x xs)
  obtain a b c d e where s: "s = (a, b, c, d, e)" by (cases s)
  show ?case by (simp add: s Cons.IH)
qed

lemma rounds_twenty:
  "length xs = 20 \<Longrightarrow> j = i + 20 \<Longrightarrow> rounds i (xs @ ys) s = rounds j ys (rounds i xs s)"
  by (simp add: rounds_append)

lemma sha1_abc_pad:
  "sha1_pad (encode ''abc'') =
    [0x61, 0x62, 0x63, 0x80, 0x0, 0x0, 0x0, 0x0, 0x0, 0x0, 0x0, 0x0, 0x0, 0x0, 0x0, 0x0, 0x0, 0x0,
     0x0, 0x0, 0x0, 0x0, 0x0, 0x0, 0x0, 0x0, 0x0, 0x0, 0x0, 0x0, 0x0, 0x0, 0x0, 0x0, 0x0, 0x0, 0x0,
     0x0, 0x0, 0x0, 0x0, 0x0, 0x0, 0x0, 0x0, 0x0, 0x0, 0x0, 0x0, 0x0, 0x0, 0x0, 0x0, 0x0, 0x0, 0x0,
     0x0, 0x0, 0x0, 0x0, 0x0, 0x0, 0x0, 0x18]"
  by (simp add: sha1_pad_def encode_def be64_def replicate_numeral)

lemma sha1_abc_words:
  "words_of
    [0x61, 0x62, 0x63, 0x80, 0x0, 0x0, 0x0, 0x0, 0x0, 0x0, 0x0, 0x0, 0x0, 0x0, 0x0, 0x0, 0x0, 0x0,
     0x0, 0x0, 0x0, 0x0, 0x0, 0x0, 0x0, 0x0, 0x0, 0x0, 0x0, 0x0, 0x0, 0x0, 0x0, 0x0, 0x0, 0x0, 0x0,
     0x0, 0x0, 0x0, 0x0, 0x0, 0x0, 0x0, 0x0, 0x0, 0x0, 0x0, 0x0, 0x0, 0x0, 0x0, 0x0, 0x0, 0x0, 0x0,
     0x0, 0x0, 0x0, 0x0, 0x0, 0x0, 0x0, 0x18]
   = [0x61626380, 0x0, 0x0, 0x0, 0x0, 0x0, 0x0, 0x0, 0x0, 0x0, 0x0, 0x0, 0x0, 0x0, 0x0, 0x18]"
  by (simp add: be_word_def)

lemma sha1_abc_schedule:
  "schedule 64 [0x61626380, 0x0, 0x0, 0x0, 0x0, 0x0, 0x0, 0x0, 0x0, 0x0, 0x0, 0x0, 0x0, 0x0, 0x0, 0x18]
   = [0x61626380, 0x0, 0x0, 0x0, 0x0, 0x0, 0x0, 0x0, 0x0, 0x0, 0x0, 0x0, 0x0, 0x0, 0x0, 0x18,
         0xC2C4C700, 0x0, 0x30, 0x85898E01]
     @ [0x0, 0x60, 0xB131C03, 0x30, 0x85898EC1, 0x16263806, 0x0, 0x180, 0x2C4C700C, 0xF0, 0x93AFB507,
         0x5898E048, 0x8E9A9202, 0x600, 0xB131C0F0, 0x16263BC6, 0x4EBED41E, 0x626380A1, 0x16263806,
         0x18C0]
     @ [0xD2E138C4, 0xF00, 0x3AFB5079, 0x898E04E5, 0xE2BA3C2B, 0x60C0, 0x53A37CD, 0x74458547,
         0xDA9415ED, 0x26380A16, 0x626383A1, 0x4EBF54DE, 0x3835B44B, 0xF600, 0x1E84C7A3, 0x98E04D98,
         0x651D16A0, 0x62658CA1, 0x458544D6, 0x44584CB7]
     @ [0x7BA06619, 0x6380AEA2, 0xAE55269, 0x627B49A1, 0x7CD45C9D, 0xF0000, 0xFB50753A, 0xEC6765E8,
         0xBA3C2BE2, 0x60C000, 0x3A37CD05, 0x458546F4, 0xB8599DD6, 0x380A1A26, 0x1E02203, 0xE7CC3456,
         0xE6E60B69, 0xF60A00, 0x5795EF4F, 0x822E0879]"
  by (simp add: schedule_numeral rotl_def)

lemma sha1_abc_rounds_0:
  "rounds 0 [0x61626380, 0x0, 0x0, 0x0, 0x0, 0x0, 0x0, 0x0, 0x0, 0x0, 0x0, 0x0, 0x0, 0x0, 0x0, 0x18,
         0xC2C4C700, 0x0, 0x30, 0x85898E01]
     (0x67452301, 0xEFCDAB89, 0x98BADCFE, 0x10325476, 0xC3D2E1F0)
   = (0xFD9E1D7D, 0xDC64901D, 0x20AA99CA, 0xD3A49608, 0xC82F758B)"
  by (simp add: rotl_def round_f_def round_k_def)

lemma sha1_abc_rounds_20:
  "rounds 20 [0x0, 0x60, 0xB131C03, 0x30, 0x85898EC1, 0x16263806, 0x0, 0x180, 0x2C4C700C, 0xF0, 0x93AFB507,
         0x5898E048, 0x8E9A9202, 0x600, 0xB131C0F0, 0x16263BC6, 0x4EBED41E, 0x626380A1, 0x16263806,
         0x18C0]
     (0xFD9E1D7D, 0xDC64901D, 0x20AA99CA, 0xD3A49608, 0xC82F758B)
   = (0x32DE1CBA, 0x4C986405, 0xF718E5CF, 0x3D447F6, 0xF72EEC32)"
  by (simp add: rotl_def round_f_def round_k_def)

lemma sha1_abc_rounds_40:
  "rounds 40 [0xD2E138C4, 0xF00, 0x3AFB5079, 0x898E04E5, 0xE2BA3C2B, 0x60C0, 0x53A37CD, 0x74458547,
         0xDA9415ED, 0x26380A16, 0x626383A1, 0x4EBF54DE, 0x3835B44B, 0xF600, 0x1E84C7A3, 0x98E04D98,
         0x651D16A0, 0x62658CA1, 0x458544D6, 0x44584CB7]
     (0x32DE1CBA, 0x4C986405, 0xF718E5CF, 0x3D447F6, 0xF72EEC32)
   = (0x3F52DE5A, 0x9D785FD, 0x3498BFD4, 0xF211824F, 0xD79915AB)"
  by (simp add: rotl_def round_f_def round_k_def)

lemma sha1_abc_rounds_60:
  "rounds 60 [0x7BA06619, 0x6380AEA2, 0xAE55269, 0x627B49A1, 0x7CD45C9D, 0xF0000, 0xFB50753A, 0xEC6765E8,
         0xBA3C2BE2, 0x60C000, 0x3A37CD05, 0x458546F4, 0xB8599DD6, 0x380A1A26, 0x1E02203, 0xE7CC3456,
         0xE6E60B69, 0xF60A00, 0x5795EF4F, 0x822E0879]
     (0x3F52DE5A, 0x9D785FD, 0x3498BFD4, 0xF211824F, 0xD79915AB)
   = (0x42541B35, 0x5738D5E1, 0x21834873, 0x681E6DF6, 0xD8FDF6AD)"
  by (simp add: rotl_def round_f_def round_k_def)

lemma sha1_abc_rounds:
  "rounds 0 ([0x61626380, 0x0, 0x0, 0x0, 0x0, 0x0, 0x0, 0x0, 0x0, 0x0, 0x0, 0x0, 0x0, 0x0, 0x0, 0x18,
         0xC2C4C700, 0x0, 0x30, 0x85898E01]
     @ [0x0, 0x60, 0xB131C03, 0x30, 0x85898EC1, 0x16263806, 0x0, 0x180, 0x2C4C700C, 0xF0, 0x93AFB507,
         0x5898E048, 0x8E9A9202, 0x600, 0xB131C0F0, 0x16263BC6, 0x4EBED41E, 0x626380A1, 0x16263806,
         0x18C0]
     @ [0xD2E138C4, 0xF00, 0x3AFB5079, 0x898E04E5, 0xE2BA3C2B, 0x60C0, 0x53A37CD, 0x74458547,
         0xDA9415ED, 0x26380A16, 0x626383A1, 0x4EBF54DE, 0x3835B44B, 0xF600, 0x1E84C7A3, 0x98E04D98,
         0x651D16A0, 0x62658CA1, 0x458544D6, 0x44584CB7]
     @ [0x7BA06619, 0x6380AEA2, 0xAE55269, 0x627B49A1, 0x7CD45C9D, 0xF0000, 0xFB50753A, 0xEC6765E8,
         0xBA3C2BE2, 0x60C000, 0x3A37CD05, 0x458546F4, 0xB8599DD6, 0x380A1A26, 0x1E02203, 0xE7CC3456,
         0xE6E60B69, 0xF60A00, 0x5795EF4F, 0x822E0879])
     (0x67452301, 0xEFCDAB89, 0x98BADCFE, 0x10325476, 0xC3D2E1F0)
   = (0x42541B35, 0x5738D5E1, 0x21834873, 0x681E6DF6, 0xD8FDF6AD)"
  (is "rounds 0 (?A @ ?B @ ?C @ ?D) ?h = ?s4")
proof -
  have "rounds 0 (?A @ ?B @ ?C @ ?D) ?h = rounds 20 (?B @ ?C @ ?D) (rounds 0 ?A ?h)"
    by (rule rounds_twenty) simp_all
  also have "\<dots> = rounds 40 (?C @ ?D) (rounds 20 ?B (rounds 0 ?A ?h))"
    by (rule rounds_twenty) simp_all
  also have "\<dots> = rounds 60 ?D (rounds 40 ?C (rounds 20 ?B (rounds 0 ?A ?h)))"
    by (rule rounds_twenty) simp_all
  also have "\<dots> = ?s4"
    by (simp only: sha1_abc_rounds_0 sha1_abc_rounds_20 sha1_abc_rounds_40 sha1_abc_rounds_60)
  finally show ?thesis .
qed

lemma sha1_abc_digest:
  "hexdigest (sha1 (encode ''abc'')) = ''a9993e364706816aba3e25717850c26c9cd0d89d''"
proof -
  have "length (sha1_pad (encode ''abc'')) = 64"
    by (simp add: length_sha1_pad encode_def)
  then have "sha1 (encode ''abc'') = compress (0x67452301, 0xEFCDAB89, 0x98BADCFE, 0x10325476, 0xC3D2E1F0) (sha1_pad (encode ''abc''))"
    by (rule sha1_one_block)
  also have "\<dots> = (0xA9993E36, 0x4706816A, 0xBA3E2571, 0x7850C26C, 0x9CD0D89D)"
    unfolding sha1_abc_pad compress_def sha1_abc_words sha1_abc_schedule sha1_abc_rounds by simp
  finally show ?thesis
    by (simp add: hexdigest_def hex_word_def nibble_def hex_char_def)
qed

lemma sha1_token_pad:
  "sha1_pad (encode ''3|5|1'') =
    [0x33, 0x7C, 0x35, 0x7C, 0x31, 0x80, 0x0, 0x0, 0x0, 0x0, 0x0, 0x0, 0x0, 0x0, 0x0, 0x0, 0x0,
     0x0, 0x0, 0x0, 0x0, 0x0, 0x0, 0x0, 0x0, 0x0, 0x0, 0x0, 0x0, 0x0, 0x0, 0x0, 0x0, 0x0, 0x0, 0x0,
     0x0, 0x0, 0x0, 0x0, 0x0, 0x0, 0x0, 0x0, 0x0, 0x0, 0x0, 0x0, 0x0, 0x0, 0x0, 0x0, 0x0, 0x0, 0x0,
     0x0, 0x0, 0x0, 0x0, 0x0, 0x0, 0x0, 0x0, 0x28]"
  by (simp add: sha1_pad_def encode_def be64_def replicate_numeral)

lemma sha1_token_words:
  "words_of
    [0x33, 0x7C, 0x35, 0x7C, 0x31, 0x80, 0x0, 0x0, 0x0, 0x0, 0x0, 0x0, 0x0, 0x0, 0x0, 0x0, 0x0,
     0x0, 0x0, 0x0, 0x0, 0x0, 0x0, 0x0, 0x0, 0x0, 0x0, 0x0, 0x0, 0x0, 0x0, 0x0, 0x0, 0x0, 0x0, 0x0,
     0x0, 0x0, 0x0, 0x0, 0x0, 0x0, 0x0, 0x0, 0x0, 0x0, 0x0, 0x0, 0x0, 0x0, 0x0, 0x0, 0x0, 0x0, 0x0,
     0x0, 0x0, 0x0, 0x0, 0x0, 0x0, 0x0, 0x0, 0x28]
   = [0x337C357C, 0x31800000, 0x0, 0x0, 0x0, 0x0, 0x0, 0x0, 0x0, 0x0, 0x0, 0x0, 0x0, 0x0, 0x0,
     0x28]"
  by (simp add: be_word_def)

lemma sha1_token_schedule:
  "schedule 64 [0x337C357C, 0x31800000, 0x0, 0x0, 0x0, 0x0, 0x0, 0x0, 0x0, 0x0, 0x0, 0x0, 0x0, 0x0, 0x0,
     0x28]
   = [0x337C357C, 0x31800000, 0x0, 0x0, 0x0, 0x0, 0x0, 0x0, 0x0, 0x0, 0x0, 0x0, 0x0, 0x0, 0x0, 0x28,
         0x66F86AF8, 0x63000000, 0x50, 0xCDF0D5F0]
     @ [0xC6000000, 0xA0, 0x9BE1ABE1, 0x8C000051, 0xCDF0D4B0, 0xF1C357C3, 0x18000003, 0x280,
         0x6F86AF86, 0x30000116, 0xFA338733, 0x10D5FFF, 0x36117E1D, 0x4A000A01, 0xBE1ABF59, 0xF7C3539B,
         0xF0CE1CCC, 0x4357D7C, 0xB7C357F2, 0x18002943]
     @ [0xCFA9AFA5, 0x18001160, 0xA338733F, 0x10D5FF50, 0xFAF64A32, 0x2C00A155, 0xD668A318,
         0x53F66D1F, 0xD7459F68, 0xE757D7C4, 0x7C357B6B, 0x68CC9DBE, 0xB559AD90, 0x98011C02, 0x8D9D8DE3,
         0xCD5FF159, 0x47AABFE0, 0xC43F682E, 0xD149667F, 0x2766F8B6]
     @ [0xBBF05928, 0x6D7D6C6E, 0x57AC924B, 0x841C2555, 0x34E6F1B, 0x3811603E, 0x38732BA3, 0xA9CA2C23,
         0x764A32CB, 0xA1552C, 0x68A318D6, 0xF66D1DD3, 0x2A19C751, 0x67D7D0E1, 0x494E124F, 0x9390FF55,
         0xFB825293, 0x411C1CB1, 0x5FA235A7, 0x63C41457]"
  by (simp add: schedule_numeral rotl_def)

lemma sha1_token_rounds_0:
  "rounds 0 [0x337C357C, 0x31800000, 0x0, 0x0, 0x0, 0x0, 0x0, 0x0, 0x0, 0x0, 0x0, 0x0, 0x0, 0x0, 0x0, 0x28,
         0x66F86AF8, 0x63000000, 0x50, 0xCDF0D5F0]
     (0x67452301, 0xEFCDAB89, 0x98BADCFE, 0x10325476, 0xC3D2E1F0)
   = (0xCF8455F8, 0xB64C3F04, 0x7BFE476B, 0xB027E44F, 0x876AFDD8)"
  by (simp add: rotl_def round_f_def round_k_def)

lemma sha1_token_rounds_20:
  "rounds 20 [0xC6000000, 0xA0, 0x9BE1ABE1, 0x8C000051, 0xCDF0D4B0, 0xF1C357C3, 0x18000003, 0x280,
         0x6F86AF86, 0x30000116, 0xFA338733, 0x10D5FFF, 0x36117E1D, 0x4A000A01, 0xBE1ABF59, 0xF7C3539B,
         0xF0CE1CCC, 0x4357D7C, 0xB7C357F2, 0x18002943]
     (0xCF8455F8, 0xB64C3F04, 0x7BFE476B, 0xB027E44F, 0x876AFDD8)
   = (0x6DF282CF, 0xE5FC2625, 0x7444D424, 0x1180AB8C, 0x60297641)"
  by (simp add: rotl_def round_f_def round_k_def)

lemma sha1_token_rounds_40:
  "rounds 40 [0xCFA9AFA5, 0x18001160, 0xA338733F, 0x10D5FF50, 0xFAF64A32, 0x2C00A155, 0xD668A318,
         0x53F66D1F, 0xD7459F68, 0xE757D7C4, 0x7C357B6B, 0x68CC9DBE, 0xB559AD90, 0x98011C02, 0x8D9D8DE3,
         0xCD5FF159, 0x47AABFE0, 0xC43F682E, 0xD149667F, 0x2766F8B6]
     (0x6DF282CF, 0xE5FC2625, 0x7444D424, 0x1180AB8C, 0x60297641)
   = (0x1F9F971B, 0xF91BEE04, 0xE462969C, 0x3F0D68B2, 0x77539B95)"
  by (simp add: rotl_def round_f_def round_k_def)

lemma sha1_token_rounds_60:
  "rounds 60 [0xBBF05928, 0x6D7D6C6E, 0x57AC924B, 0x841C2555, 0x34E6F1B, 0x3811603E, 0x38732BA3, 0xA9CA2C23,
         0x764A32CB, 0xA1552C, 0x68A318D6, 0xF66D1DD3, 0x2A19C751, 0x67D7D0E1, 0x494E124F, 0x9390FF55,
         0xFB825293, 0x411C1CB1, 0x5FA235A7, 0x63C41457]
     (0x1F9F971B, 0xF91BEE04, 0xE462969C, 0x3F0D68B2, 0x77539B95)
   = (0x624F2654, 0xD4106D79, 0x66FE85F, 0x5AA86340, 0xB9AF77CF)"
  by (simp add: rotl_def round_f_def round_k_def)

lemma sha1_token_rounds:
  "rounds 0 ([0x337C357C, 0x31800000, 0x0, 0x0, 0x0, 0x0, 0x0, 0x0, 0x0, 0x0, 0x0, 0x0, 0x0, 0x0, 0x0, 0x28,
         0x66F86AF8, 0x63000000, 0x50, 0xCDF0D5F0]
     @ [0xC6000000, 0xA0, 0x9BE1ABE1, 0x8C000051, 0xCDF0D4B0, 0xF1C357C3, 0x18000003, 0x280,
         0x6F86AF86, 0x30000116, 0xFA338733, 0x10D5FFF, 0x36117E1D, 0x4A000A01, 0xBE1ABF59, 0xF7C3539B,
         0xF0CE1CCC, 0x4357D7C, 0xB7C357F2, 0x18002943]
     @ [0xCFA9AFA5, 0x18001160, 0xA338733F, 0x10D5FF50, 0xFAF64A32, 0x2C00A155, 0xD668A318,
         0x53F66D1F, 0xD7459F68, 0xE757D7C4, 0x7C357B6B, 0x68CC9DBE, 0xB559AD90, 0x98011C02, 0x8D9D8DE3,
         0xCD5FF159, 0x47AABFE0, 0xC43F682E, 0xD149667F, 0x2766F8B6]
     @ [0xBBF05928, 0x6D7D6C6E, 0x57AC924B, 0x841C2555, 0x34E6F1B, 0x3811603E, 0x38732BA3, 0xA9CA2C23,
         0x764A32CB, 0xA1552C, 0x68A318D6, 0xF66D1DD3, 0x2A19C751, 0x67D7D0E1, 0x494E124F, 0x9390FF55,
         0xFB825293, 0x411C1CB1, 0x5FA235A7, 0x63C41457])
     (0x67452301, 0xEFCDAB89, 0x98BADCFE, 0x10325476, 0xC3D2E1F0)
   = (0x624F2654, 0xD4106D79, 0x66FE85F, 0x5AA86340, 0xB9AF77CF)"
  (is "rounds 0 (?A @ ?B @ ?C @ ?D) ?h = ?s4")
proof -
  have "rounds 0 (?A @ ?B @ ?C @ ?D) ?h = rounds 20 (?B @ ?C @ ?D) (rounds 0 ?A ?h)"
    by (rule rounds_twenty) simp_all
  also have "\<dots> = rounds 40 (?C @ ?D) (rounds 20 ?B (rounds 0 ?A ?h))"
    by (rule rounds_twenty) simp_all
  also have "\<dots> = rounds 60 ?D (rounds 40 ?C (rounds 20 ?B (rounds 0 ?A ?h)))"
    by (rule rounds_twenty) simp_all
  also have "\<dots> = ?s4"
    by (simp only: sha1_token_rounds_0 sha1_token_rounds_20 sha1_token_rounds_40 sha1_token_rounds_60)
  finally show ?thesis .
qed

lemma sha1_token_digest:
  "hexdigest (sha1 (encode ''3|5|1'')) = ''c9944955c3de19029f2ac55d6adab7b67d8259bf''"
proof -
  have "length (sha1_pad (encode ''3|5|1'')) = 64"
    by (simp add: length_sha1_pad encode_def)
  then have "sha1 (encode ''3|5|1'') = compress (0x67452301, 0xEFCDAB89, 0x98BADCFE, 0x10325476, 0xC3D2E1F0) (sha1_pad (encode ''3|5|1''))"
    by (rule sha1_one_block)
  also have "\<dots> = (0xC9944955, 0xC3DE1902, 0x9F2AC55D, 0x6ADAB7B6, 0x7D8259BF)"
    unfolding sha1_token_pad compress_def sha1_token_words sha1_token_schedule sha1_token_rounds by simp
  finally show ?thesis
    by (simp add: hexdigest_def hex_word_def nibble_def hex_char_def)
qed

lemma hash_input_example: "hash_input 3 5 1 = ''3|5|1''"
  by (simp add: hash_input_def str_int_def str_nat.simps digit_char_def)

lemma str_int_examples: "str_int 0 = ''0''" "str_int 1204 = ''1204''" "str_int (- 17) = ''-17''"
  by (simp_all add: str_int_def str_nat.simps digit_char_def)

lemma hash_value_example: "hash_value 3 5 1 = ''c9944955c3de19029f2a''"
  by (simp add: hash_value_def hash_input_example sha1_token_digest)

subsection \<open>The token\<close>

lemma length_hex_word: "length (hex_word w) = 8"
  by (simp add: hex_word_def)

lemma length_hexdigest: "length (hexdigest s) = 40"
  by (cases s) (simp add: hexdigest_def length_hex_word)

lemma nibble_bound: "unat ((x :: u32) AND 15) < 16"
proof -
  have "unat (x AND 15) \<le> unat (15 :: u32)"
    by (rule word_and_le1 [THEN word_le_nat_alt [THEN iffD1]])
  then show ?thesis by simp
qed

lemma hex_char_range: "d < 16 \<Longrightarrow> hex_char d \<in> set ''0123456789abcdef''"
  unfolding hex_char_def by (rule nth_mem) simp

lemma nibble_range: "nibble k w \<in> set ''0123456789abcdef''"
  unfolding nibble_def by (rule hex_char_range [OF nibble_bound])

lemma set_hex_word: "set (hex_word w) \<subseteq> set ''0123456789abcdef''"
  using nibble_range [of _ w] by (simp add: hex_word_def)

lemma set_hexdigest: "set (hexdigest s) \<subseteq> set ''0123456789abcdef''"
  using set_hex_word by (cases s) (simp add: hexdigest_def)

lemma length_hash_value: "length (hash_value f1 f2 delta_t) = 20"
  by (simp add: hash_value_def length_hexdigest)

lemma set_hash_value: "set (hash_value f1 f2 delta_t) \<subseteq> set ''0123456789abcdef''"
  using set_take_subset set_hexdigest unfolding hash_value_def by (rule subset_trans)

text \<open>
  Claim C7. The token of an anchor-target pair is a function of \<open>(f1, f2, \<Delta>t)\<close>
  alone: the first 20 characters of the hexadecimal SHA-1 digest of the text
  \<^verbatim>\<open>f1|f2|\<Delta>t\<close>. It is 20 hexadecimal characters wide, and two pairs with the same
  \<open>(f1, f2, \<Delta>t)\<close> get the same token whatever their anchor times, their song ids or
  their places in the peak list are.
\<close>

theorem hash_token_is_truncated_sha1:
  "hash_value f1 f2 delta_t =
     take 20 (hexdigest (sha1 (encode (str_int f1 @ ''|'' @ str_int f2 @ ''|'' @ str_int delta_t))))
   \<and> length (hash_value f1 f2 delta_t) = 20
   \<and> set (hash_value f1 f2 delta_t) \<subseteq> set ''0123456789abcdef''
   \<and> map fst (anchor_hashes t1 f1 sid targets) = map (\<lambda>(t2, f2, delta_t). hash_value f1 f2 delta_t) targets
   \<and> map fst (anchor_hashes t1 f1 sid [(t2, f2, delta_t)]) = map fst (anchor_hashes t1' f1 sid' [(t2', f2, delta_t)])
   \<and> (\<forall>(H, t_anchor, s) \<in> set (generate_hashes P sid).
        length H = 20 \<and> (\<exists>f1 t2 f2. (t_anchor, f1) \<in> set P \<and> (t2, f2) \<in> set P
                                 \<and> H = hash_value f1 f2 (t2 - t_anchor)))"
proof (intro conjI)
  show "hash_value f1 f2 delta_t =
     take 20 (hexdigest (sha1 (encode (str_int f1 @ ''|'' @ str_int f2 @ ''|'' @ str_int delta_t))))"
    by (simp add: hash_value_def hash_input_def)
  show "length (hash_value f1 f2 delta_t) = 20"
    by (rule length_hash_value)
  show "set (hash_value f1 f2 delta_t) \<subseteq> set ''0123456789abcdef''"
    by (rule set_hash_value)
  show "map fst (anchor_hashes t1 f1 sid targets) = map (\<lambda>(t2, f2, delta_t). hash_value f1 f2 delta_t) targets"
    by (induction targets) (auto simp: anchor_hashes_def)
  show "map fst (anchor_hashes t1 f1 sid [(t2, f2, delta_t)]) = map fst (anchor_hashes t1' f1 sid' [(t2', f2, delta_t)])"
    by (simp add: anchor_hashes_def)
  show "\<forall>(H, t_anchor, s) \<in> set (generate_hashes P sid).
        length H = 20 \<and> (\<exists>f1 t2 f2. (t_anchor, f1) \<in> set P \<and> (t2, f2) \<in> set P
                                 \<and> H = hash_value f1 f2 (t2 - t_anchor))"
  proof (clarify)
    fix H t_anchor s
    assume "(H, t_anchor, s) \<in> set (generate_hashes P sid)"
    then have "(H, t_anchor, s) \<in> set (anchor_loop (sort_peaks P) sid [])"
      by (simp add: generate_hashes_def)
    from anchor_loop_set [OF this] obtain f1 t2 f2 where
      "(t_anchor, f1) \<in> set P" "(t2, f2) \<in> set P" "H = hash_value f1 f2 (t2 - t_anchor)"
      by (auto simp: set_sort_peaks)
    then show "length H = 20 \<and> (\<exists>f1 t2 f2. (t_anchor, f1) \<in> set P \<and> (t2, f2) \<in> set P
                                 \<and> H = hash_value f1 f2 (t2 - t_anchor))"
      using length_hash_value by blast
  qed
qed

theorem hash_token_is_truncated_sha1_witness:
  "(''c9944955c3de19029f2a'', 0, None) \<in> set (generate_hashes [(0, 3), (1, 5)] None)
   \<and> hash_value 3 5 1 = ''c9944955c3de19029f2a''
   \<and> length (hash_value 3 5 1) = 20"
proof -
  have m: "(hash_value 3 5 1, 0, None) \<in> set (generate_hashes [(0, 3), (1, 5)] None)"
    by (simp add: generate_hashes_def sort_peaks_def anchor_hashes_def
        TARGET_ZONE_START_def TARGET_ZONE_END_def FAN_OUT_def)
  have "\<forall>(H, t_anchor, s) \<in> set (generate_hashes [(0, 3), (1, 5)] None).
        length H = 20 \<and> (\<exists>f1 t2 f2. (t_anchor, f1) \<in> set [(0, 3), (1, 5)] \<and> (t2, f2) \<in> set [(0, 3), (1, 5)]
                                 \<and> H = hash_value f1 f2 (t2 - t_anchor))"
    by (rule conjunct2 [OF conjunct2 [OF conjunct2 [OF conjunct2 [OF conjunct2
          [OF hash_token_is_truncated_sha1]]]]])
  from bspec [OF this m] have "length (hash_value 3 5 1) = 20" by simp
  with m hash_value_example show ?thesis by simp
qed

subsection \<open>The order of the peaks\<close>

text \<open>
  Claim C8, as stated, asks that peaks with the same time are ordered by frequency.
  The sort key is the time alone, so two peaks with the same time stay in the order
  of the input, here 5 before 3, and the tuples come out in that order.
\<close>

theorem sort_peaks_ties_counterexample:
  "sort_peaks [(0, 5), (0, 3)] = [(0, 5), (0, 3)]
   \<and> sort_peaks [(0, 5), (0, 3)] \<noteq> [(0, 3), (0, 5)]
   \<and> map fst (generate_hashes [(0, 0), (1, 5), (1, 3)] None) = [hash_value 0 5 1, hash_value 0 3 1]"
  by (simp add: sort_peaks_def generate_hashes_def anchor_hashes_def
      TARGET_ZONE_START_def TARGET_ZONE_END_def FAN_OUT_def)

text \<open>
  Claim C8, amended. \<^verbatim>\<open>generate_hashes\<close> processes the peaks sorted ascending by
  time; the sort is stable, so peaks with the same time keep the order they have in the
  input list (they are not ordered by frequency).
\<close>

theorem sort_peaks_stable_by_time:
  "sorted (map fst (sort_peaks P))
   \<and> mset (sort_peaks P) = mset P
   \<and> filter (\<lambda>p. fst p = t) (sort_peaks P) = filter (\<lambda>p. fst p = t) P
   \<and> generate_hashes P sid = anchor_loop (sort_peaks P) sid []"
  by (simp add: sort_peaks_def generate_hashes_def sort_key_stable)

section \<open>Properties of the index store\<close>

lemma fold_max_ge: "(x :: int) \<in> set (a # xs) \<Longrightarrow> x \<le> fold max xs a"
proof -
  assume "x \<in> set (a # xs)"
  then have "x \<le> Max (set (a # xs))" by (intro Max_ge) simp_all
  then show ?thesis by (simp only: Max.set_eq_fold)
qed

lemma next_rowid_fresh: "i \<in> fst ` set (songs db) \<Longrightarrow> i < next_rowid db"
proof -
  assume "i \<in> fst ` set (songs db)"
  then have "i \<in> set (sqlite_sequence db # map fst (songs db))" by simp
  from fold_max_ge [OF this] show ?thesis by (simp add: next_rowid_def)
qed

lemma next_rowid_not_song: "next_rowid db \<notin> fst ` set (songs db)"
  using next_rowid_fresh [of "next_rowid db" db] by auto

lemma insert_song_fields:
  "insert_song name hs db = (sid, db') \<Longrightarrow>
     sid = next_rowid db
     \<and> songs db' = songs db @ [(sid, name)]
     \<and> fingerprints db' = fingerprints db @ map (\<lambda>(h, t, _). (h, sid, t)) hs
     \<and> sqlite_sequence db' = sid"
  by (auto simp: insert_song_def Let_def)

lemma reachable_rows_reference_songs:
  "reachable db \<Longrightarrow> (h, s, t) \<in> set (fingerprints db) \<Longrightarrow> s \<in> fst ` set (songs db)"
proof (induction arbitrary: h s t rule: reachable.induct)
  case reachable_init
  then show ?case by (simp add: init_db_def)
next
  case (reachable_insert db name hashes)
  obtain sid db' where ins: "insert_song name hashes db = (sid, db')"
    by (cases "insert_song name hashes db")
  note f = insert_song_fields [OF ins]
  from reachable_insert.prems ins f
  have "(h, s, t) \<in> set (fingerprints db) \<or> s = sid"
    by auto
  then show ?case
  proof
    assume "(h, s, t) \<in> set (fingerprints db)"
    from reachable_insert.IH [OF this] ins f show ?thesis by auto
  next
    assume "s = sid"
    with ins f show ?thesis by auto
  qed
qed

lemma get_song_after_insert:
  "insert_song name hs db = (sid, db') \<Longrightarrow> get_song sid db' = Some name"
proof -
  assume ins: "insert_song name hs db = (sid, db')"
  note f = insert_song_fields [OF ins]
  from f next_rowid_not_song [of db] have "map_of (songs db) sid = None"
    by (simp add: map_of_eq_None_iff)
  with f show ?thesis by (simp add: get_song_def map_add_def)
qed

lemma probe_old_rows:
  "\<forall>r \<in> set fps. fst (snd r) \<noteq> sid \<Longrightarrow>
   filter (\<lambda>m. fst m = sid)
     (map (\<lambda>(s, t). (s, t, q)) (map (\<lambda>(h', s, t). (s, t)) (filter (\<lambda>(h', s, t). h' = h) fps))) = []"
  by (induction fps) auto

lemma probe_new_rows:
  "filter (\<lambda>m. fst m = sid)
     (map (\<lambda>(s, t). (s, t, q)) (map (\<lambda>(h', s, t). (s, t))
        (filter (\<lambda>(h', s, t). h' = h) (map (\<lambda>(h', t, _). (h', sid, t)) hs))))
   = map (\<lambda>e. (sid, fst (snd e), q)) (filter (\<lambda>e. fst e = h) hs)"
  by (induction hs) auto

lemma probe_one_hash:
  assumes "\<forall>r \<in> set (fingerprints db). fst (snd r) \<noteq> sid"
    and "fingerprints db' = fingerprints db @ map (\<lambda>(h', t, _). (h', sid, t)) hs"
  shows "filter (\<lambda>m. fst m = sid) (map (\<lambda>(s, t). (s, t, q)) (select_by_hash h db'))
         = map (\<lambda>e. (sid, fst (snd e), q)) (filter (\<lambda>e. fst e = h) hs)"
  using probe_old_rows [OF assms(1), of q h] probe_new_rows [of sid q h hs]
  by (simp add: select_by_hash_def assms(2))

lemma query_Cons:
  "query ((h, q, x) # qs) db = map (\<lambda>(s, t). (s, t, q)) (select_by_hash h db) @ query qs db"
  by (simp add: query_def)

lemma probe_all_hashes:
  assumes "\<forall>r \<in> set (fingerprints db). fst (snd r) \<noteq> sid"
    and "fingerprints db' = fingerprints db @ map (\<lambda>(h', t, _). (h', sid, t)) hs"
  shows "filter (\<lambda>m. fst m = sid) (query qs db')
         = concat (map (\<lambda>(h, q, _). map (\<lambda>e. (sid, fst (snd e), q)) (filter (\<lambda>e. fst e = h) hs)) qs)"
proof (induction qs)
  case Nil
  then show ?case by (simp add: query_def)
next
  case (Cons e qs)
  obtain h q x where e: "e = (h, q, x)" by (cases e)
  show ?case
    unfolding e query_Cons filter_append Cons.IH probe_one_hash [OF assms] by simp
qed

lemma length_occurrences:
  "length (filter (\<lambda>e. fst e = h) hs) = count_list (map fst hs) h"
  by (induction hs) auto

text \<open>
  Claim C5. Round trip of the store: after \<open>id = insert_song name hs\<close> on a store the
  program has built, \<open>get_song id\<close> is \<open>name\<close>, and the probe \<open>query hs\<close> returns, for
  each query hash \<open>h\<close> of \<open>hs\<close>, one triple \<open>(id, t_db, t_query)\<close> for each occurrence
  of \<open>h\<close> in \<open>hs\<close>: as many with song id \<open>id\<close> as \<open>h\<close> occurs in \<open>hs\<close>. With an empty
  \<open>hs\<close> the song row is created and no fingerprint row.
\<close>

theorem store_round_trip:
  "reachable db \<Longrightarrow> insert_song name hs db = (sid, db') \<Longrightarrow>
     get_song sid db' = Some name
     \<and> filter (\<lambda>m. fst m = sid) (query hs db')
         = concat (map (\<lambda>(h, q, _). map (\<lambda>e. (sid, fst (snd e), q)) (filter (\<lambda>e. fst e = h) hs)) hs)
     \<and> (\<forall>(h, q, x) \<in> set hs.
           length (filter (\<lambda>m. fst m = sid) (query [(h, q, x)] db')) = count_list (map fst hs) h
           \<and> 1 \<le> count_list (map fst hs) h)
     \<and> (hs = [] \<longrightarrow> songs db' = songs db @ [(sid, name)] \<and> fingerprints db' = fingerprints db
                      \<and> query hs db' = [])"
proof -
  assume r: "reachable db" and ins: "insert_song name hs db = (sid, db')"
  note f = insert_song_fields [OF ins]
  have old: "\<forall>r \<in> set (fingerprints db). fst (snd r) \<noteq> sid"
  proof
    fix r
    assume m: "r \<in> set (fingerprints db)"
    obtain h' s t where r': "r = (h', s, t)" by (cases r)
    have "s \<in> fst ` set (songs db)"
      by (rule reachable_rows_reference_songs [OF r m [unfolded r']])
    with next_rowid_not_song [of db] have "s \<noteq> next_rowid db" by blast
    with f show "fst (snd r) \<noteq> sid" by (simp add: r')
  qed
  from f have new: "fingerprints db' = fingerprints db @ map (\<lambda>(h', t, _). (h', sid, t)) hs"
    by simp
  have a: "get_song sid db' = Some name"
    by (rule get_song_after_insert [OF ins])
  have b: "filter (\<lambda>m. fst m = sid) (query hs db')
         = concat (map (\<lambda>(h, q, _). map (\<lambda>e. (sid, fst (snd e), q)) (filter (\<lambda>e. fst e = h) hs)) hs)"
    by (rule probe_all_hashes [OF old new])
  have c: "\<forall>(h, q, x) \<in> set hs.
           length (filter (\<lambda>m. fst m = sid) (query [(h, q, x)] db')) = count_list (map fst hs) h
           \<and> 1 \<le> count_list (map fst hs) h"
  proof (clarify)
    fix h q x
    assume m: "(h, q, x) \<in> set hs"
    have "filter (\<lambda>m. fst m = sid) (query [(h, q, x)] db')
            = map (\<lambda>e. (sid, fst (snd e), q)) (filter (\<lambda>e. fst e = h) hs)"
      using probe_all_hashes [OF old new, of "[(h, q, x)]"] by simp
    then have "length (filter (\<lambda>m. fst m = sid) (query [(h, q, x)] db')) = count_list (map fst hs) h"
      using length_occurrences [of h hs] by simp
    moreover from m have "h \<in> set (map fst hs)" by force
    then have "1 \<le> count_list (map fst hs) h"
      using count_list_0_iff [of "map fst hs" h] by (cases "count_list (map fst hs) h") auto
    ultimately show "length (filter (\<lambda>m. fst m = sid) (query [(h, q, x)] db')) = count_list (map fst hs) h
           \<and> 1 \<le> count_list (map fst hs) h" by simp
  qed
  have d: "hs = [] \<longrightarrow> songs db' = songs db @ [(sid, name)] \<and> fingerprints db' = fingerprints db
                      \<and> query hs db' = []"
    using f by (simp add: query_def)
  from a b c d show ?thesis by blast
qed

theorem store_round_trip_witness:
  "reachable init_db
   \<and> insert_song ''song'' [(''aa'', 0, None), (''bb'', 1, None), (''aa'', 7, None)] init_db
       = (1, \<lparr>songs = [(1, ''song'')],
              fingerprints = [(''aa'', 1, 0), (''bb'', 1, 1), (''aa'', 1, 7)],
              sqlite_sequence = 1\<rparr>)
   \<and> get_song 1 \<lparr>songs = [(1, ''song'')],
              fingerprints = [(''aa'', 1, 0), (''bb'', 1, 1), (''aa'', 1, 7)],
              sqlite_sequence = 1\<rparr> = Some ''song''
   \<and> length (filter (\<lambda>m. fst m = 1) (query [(''aa'', 0, None)]
         \<lparr>songs = [(1, ''song'')],
              fingerprints = [(''aa'', 1, 0), (''bb'', 1, 1), (''aa'', 1, 7)],
              sqlite_sequence = 1\<rparr>)) = 2"
proof -
  have r: "reachable init_db" by (rule reachable_init)
  have i: "insert_song ''song'' [(''aa'', 0, None), (''bb'', 1, None), (''aa'', 7, None)] init_db
       = (1, \<lparr>songs = [(1, ''song'')],
              fingerprints = [(''aa'', 1, 0), (''bb'', 1, 1), (''aa'', 1, 7)],
              sqlite_sequence = 1\<rparr>)"
    by (simp add: insert_song_def init_db_def next_rowid_def)
  from store_round_trip [OF r i] r i show ?thesis by simp
qed

text \<open>
  Claim C10. \<^verbatim>\<open>insert_song\<close> ignores the third component of every hash tuple: each
  row it stores carries the id allocated for the new song, an id no song had before,
  whatever song ids (or \<^verbatim>\<open>None\<close>) the tuples carry.
\<close>

theorem insert_song_ignores_tuple_song_id:
  "insert_song name hs db = (sid, db') \<Longrightarrow>
     sid = next_rowid db \<and> sid \<notin> fst ` set (songs db)
     \<and> fingerprints db' = fingerprints db @ map (\<lambda>(h, t, _). (h, sid, t)) hs
     \<and> (\<forall>(h, s, t) \<in> set (drop (length (fingerprints db)) (fingerprints db')). s = sid)
     \<and> (map (\<lambda>(h, t, _). (h, t)) hs' = map (\<lambda>(h, t, _). (h, t)) hs
          \<longrightarrow> insert_song name hs' db = (sid, db'))"
proof -
  assume ins: "insert_song name hs db = (sid, db')"
  note f = insert_song_fields [OF ins]
  have split: "\<And>xs :: hash_tuple list. map (\<lambda>(h, t, _). (h, sid, t)) xs
                 = map (\<lambda>(h, t). (h, sid, t)) (map (\<lambda>(h, t, _). (h, t)) xs)"
    by (simp add: case_prod_unfold)
  have e: "map (\<lambda>(h, t, _). (h, t)) hs' = map (\<lambda>(h, t, _). (h, t)) hs
          \<longrightarrow> insert_song name hs' db = (sid, db')"
  proof
    assume "map (\<lambda>(h, t, _). (h, t)) hs' = map (\<lambda>(h, t, _). (h, t)) hs"
    then have "map (\<lambda>(h, t, _). (h, sid, t)) hs' = map (\<lambda>(h, t, _). (h, sid, t)) hs"
      using split [of hs'] split [of hs] by simp
    with ins f show "insert_song name hs' db = (sid, db')"
      by (simp add: insert_song_def Let_def)
  qed
  from f next_rowid_not_song [of db] e show ?thesis by auto
qed

theorem insert_song_ignores_tuple_song_id_witness:
  "insert_song ''song'' [(''aa'', 0, Some 7), (''bb'', 1, None)] init_db
       = (1, \<lparr>songs = [(1, ''song'')], fingerprints = [(''aa'', 1, 0), (''bb'', 1, 1)],
              sqlite_sequence = 1\<rparr>)
   \<and> insert_song ''song'' [(''aa'', 0, Some 99), (''bb'', 1, Some 0)] init_db
       = (1, \<lparr>songs = [(1, ''song'')], fingerprints = [(''aa'', 1, 0), (''bb'', 1, 1)],
              sqlite_sequence = 1\<rparr>)"
proof -
  have i: "insert_song ''song'' [(''aa'', 0, Some 7), (''bb'', 1, None)] init_db
       = (1, \<lparr>songs = [(1, ''song'')], fingerprints = [(''aa'', 1, 0), (''bb'', 1, 1)],
              sqlite_sequence = 1\<rparr>)"
    by (simp add: insert_song_def init_db_def next_rowid_def)
  from insert_song_ignores_tuple_song_id [OF i, of "[(''aa'', 0, Some 99), (''bb'', 1, Some 0)]"] i
  show ?thesis by simp
qed

section \<open>Properties of the matcher\<close>

lemma bump_key_set: "fst ` set (bump k ac) = insert k (fst ` set ac)"
proof (induction ac)
  case Nil
  then show ?case by simp
next
  case (Cons a ac)
  obtain k' c where a: "a = (k', c)" by (cases a)
  show ?case
  proof (cases "k' = k")
    case True
    then show ?thesis by (simp add: a)
  next
    case False
    then show ?thesis using Cons.IH by (simp add: a insert_commute)
  qed
qed

lemma bump_distinct: "distinct (map fst ac) \<Longrightarrow> distinct (map fst (bump k ac))"
proof (induction ac)
  case Nil
  then show ?case by simp
next
  case (Cons a ac)
  obtain k' c where a: "a = (k', c)" by (cases a)
  show ?case
  proof (cases "k' = k")
    case True
    then show ?thesis using Cons.prems by (simp add: a)
  next
    case False
    then show ?thesis using Cons by (simp add: a bump_key_set)
  qed
qed

lemma bump_count: "count_of (bump k ac) k' = count_of ac k' + (if k' = k then 1 else 0)"
  by (induction ac) (auto simp: count_of_def)

lemma bump_positive: "list_all (\<lambda>e. 0 < snd e) ac \<Longrightarrow> list_all (\<lambda>e. 0 < snd e) (bump k ac)"
  by (induction ac) auto

lemma count_alignments_distinct:
  "distinct (map fst ac) \<Longrightarrow> distinct (map fst (count_alignments ms ac))"
  by (induction ms ac rule: count_alignments.induct) (simp_all add: bump_distinct)

lemma count_alignments_positive:
  "list_all (\<lambda>e. 0 < snd e) ac \<Longrightarrow> list_all (\<lambda>e. 0 < snd e) (count_alignments ms ac)"
  by (induction ms ac rule: count_alignments.induct) (simp_all add: bump_positive)

lemma count_alignments_count:
  "count_of (count_alignments ms ac) k = count_of ac k + votes ms k"
  by (induction ms ac rule: count_alignments.induct)
     (auto simp: bump_count votes_def alignment_key_of_def)

lemma count_of_entry:
  "distinct (map fst ac) \<Longrightarrow> (k, c) \<in> set ac \<Longrightarrow> count_of ac k = c"
  by (simp add: count_of_def)

lemma entry_of_count:
  "list_all (\<lambda>e. 0 < snd e) ac \<Longrightarrow> 0 < count_of ac k \<Longrightarrow> (k, count_of ac k) \<in> set ac"
  by (auto simp: count_of_def split: option.splits dest: map_of_SomeD)

lemma max_from_mem: "max_from b rest \<in> set (b # rest)"
  by (induction rest arbitrary: b) auto

lemma max_from_ge_start: "snd b \<le> snd (max_from b rest)"
proof (induction rest arbitrary: b)
  case Nil
  then show ?case by simp
next
  case (Cons y rest)
  have "snd b \<le> snd (if snd y > snd b then y else b)" by simp
  also have "\<dots> \<le> snd (max_from (if snd y > snd b then y else b) rest)" by (rule Cons.IH)
  finally show ?case by simp
qed

lemma max_from_ge_rest: "x \<in> set rest \<Longrightarrow> snd x \<le> snd (max_from b rest)"
proof (induction rest arbitrary: b)
  case Nil
  then show ?case by simp
next
  case (Cons y rest)
  from Cons.prems consider "x = y" | "x \<in> set rest" by auto
  then show ?case
  proof cases
    case 1
    have "snd y \<le> snd (if snd y > snd b then y else b)" by simp
    also have "\<dots> \<le> snd (max_from (if snd y > snd b then y else b) rest)"
      by (rule max_from_ge_start)
    finally show ?thesis using 1 by simp
  next
    case 2
    from Cons.IH [OF this] show ?thesis by simp
  qed
qed

lemma max_from_ge: "x \<in> set (b # rest) \<Longrightarrow> snd x \<le> snd (max_from b rest)"
  using max_from_ge_start [of b rest] max_from_ge_rest [of x rest b] by auto

lemma votes_positive_iff: "0 < votes ms k \<longleftrightarrow> k \<in> alignment_key_of ` set ms"
  using count_list_0_iff [of "map alignment_key_of ms" k] by (auto simp: votes_def)

lemma max_key_votes:
  assumes "ms \<noteq> []"
  shows "\<exists>k. max_key (count_alignments ms []) = Inr (k, votes ms k)
           \<and> (\<forall>k'. votes ms k' \<le> votes ms k) \<and> 0 < votes ms k"
proof -
  let ?ac = "count_alignments ms []"
  have d: "distinct (map fst ?ac)" by (rule count_alignments_distinct) simp
  have p: "list_all (\<lambda>e. 0 < snd e) ?ac" by (rule count_alignments_positive) simp
  have c: "count_of ?ac k = votes ms k" for k
    using count_alignments_count [of ms "[]" k] by (simp add: count_of_def)
  from assms obtain m where m: "m \<in> set ms" by (cases ms) auto
  then have pos: "0 < votes ms (alignment_key_of m)" by (simp add: votes_positive_iff)
  with entry_of_count [OF p, of "alignment_key_of m"] c have "?ac \<noteq> []" by auto
  then obtain kv rest where ac: "?ac = kv # rest" by (cases ?ac) auto
  obtain k n where kn: "max_from kv rest = (k, n)" by (cases "max_from kv rest")
  from max_from_mem [of kv rest] kn ac have "(k, n) \<in> set ?ac" by simp
  from count_of_entry [OF d this] c have n: "n = votes ms k" by simp
  have ge: "votes ms k' \<le> votes ms k" for k'
  proof (cases "0 < votes ms k'")
    case True
    with entry_of_count [OF p, of k'] c have "(k', votes ms k') \<in> set (kv # rest)"
      by (simp add: ac)
    from max_from_ge [OF this] kn n show ?thesis by simp
  next
    case False
    then show ?thesis by simp
  qed
  from pos ge [of "alignment_key_of m"] have "0 < votes ms k" by simp
  with ge kn n ac show ?thesis by (auto simp: max_key_def)
qed

lemma best_votes_eq:
  assumes "\<forall>k'. votes ms k' \<le> votes ms k" and "0 < votes ms k"
  shows "best_votes ms = votes ms k"
  unfolding best_votes_def
proof (rule Max_eqI)
  show "finite (set (map (votes ms) (map alignment_key_of ms)))" by simp
next
  fix v
  assume "v \<in> set (map (votes ms) (map alignment_key_of ms))"
  then obtain m where "v = votes ms (alignment_key_of m)" by auto
  with assms(1) [rule_format, of "alignment_key_of m"] show "v \<le> votes ms k" by simp
next
  from assms(2) have "k \<in> alignment_key_of ` set ms" by (simp add: votes_positive_iff)
  then show "votes ms k \<in> set (map (votes ms) (map alignment_key_of ms))" by auto
qed

lemma score_matches_cases:
  assumes "ms \<noteq> []"
  shows "\<exists>k. votes ms k = best_votes ms \<and> (\<forall>k'. votes ms k' \<le> best_votes ms) \<and> 0 < best_votes ms
           \<and> score_matches q ms db =
               (if best_votes ms < MIN_MATCHES then Inr None
                else if length q = 0 then Inl ZeroDivisionError
                else Inr (Some \<lparr>song_id = fst k, song_name = get_song (fst k) db,
                                confidence = real (best_votes ms) / real (length q),
                                aligned_matches = best_votes ms\<rparr>))"
proof -
  from max_key_votes [OF assms] obtain k where
    k: "max_key (count_alignments ms []) = Inr (k, votes ms k)"
    and ge: "\<forall>k'. votes ms k' \<le> votes ms k" and pos: "0 < votes ms k"
    by blast
  note b = best_votes_eq [OF ge pos]
  from k b assms have "score_matches q ms db =
               (if best_votes ms < MIN_MATCHES then Inr None
                else if length q = 0 then Inl ZeroDivisionError
                else Inr (Some \<lparr>song_id = fst k, song_name = get_song (fst k) db,
                                confidence = real (best_votes ms) / real (length q),
                                aligned_matches = best_votes ms\<rparr>))"
    by (simp add: score_matches_def Let_def)
  moreover from b have "votes ms k = best_votes ms" by simp
  moreover from b ge have "\<forall>k'. votes ms k' \<le> best_votes ms" by simp
  moreover from b pos have "0 < best_votes ms" by simp
  ultimately show ?thesis by blast
qed


lemma score_matches_Nil: "score_matches q [] db = Inr None"
  by (simp add: score_matches_def)

lemma votes_mset: "mset ms = mset ms' \<Longrightarrow> votes ms k = votes ms' k"
proof -
  assume "mset ms = mset ms'"
  then have "mset (map alignment_key_of ms) = mset (map alignment_key_of ms')"
    by (metis mset_map)
  then show ?thesis
    unfolding votes_def count_mset [symmetric] by (simp only:)
qed

lemma best_votes_mset: "mset ms = mset ms' \<Longrightarrow> best_votes ms = best_votes ms'"
proof -
  assume e: "mset ms = mset ms'"
  then have "votes ms = votes ms'" by (intro ext votes_mset)
  moreover from e have "set ms = set ms'" by (rule mset_eq_setD)
  ultimately show ?thesis by (simp add: best_votes_def)
qed

lemma count_list_distinct: "distinct xs \<Longrightarrow> count_list xs x \<le> 1"
  by (induction xs) (auto simp: count_list_0_iff)


lemma votes_append: "votes (xs @ ys) k = votes xs k + votes ys k"
  by (simp add: votes_def)

lemma votes_one_hash:
  "votes (map (\<lambda>(s, t). (s, t, q)) (map (\<lambda>(h', s, t). (s, t)) (filter (\<lambda>(h', s, t). h' = h) fps))) (s0, d)
     = count_list fps (h, s0, d + q)"
  by (induction fps) (auto simp: votes_def alignment_key_of_def)

lemma votes_query_le:
  assumes "distinct (fingerprints db)"
  shows "votes (query qs db) k \<le> length qs"
proof (induction qs)
  case Nil
  then show ?case by (simp add: query_def votes_def)
next
  case (Cons e qs)
  obtain h q x where e: "e = (h, q, x)" by (cases e)
  obtain s0 d where k: "k = (s0, d)" by (cases k)
  have "votes (map (\<lambda>(s, t). (s, t, q)) (select_by_hash h db)) k \<le> 1"
    unfolding k select_by_hash_def votes_one_hash by (rule count_list_distinct [OF assms])
  with Cons.IH show ?case by (simp add: e query_Cons votes_append)
qed

text \<open>
  Claim C1, as stated, also asks that the confidence lies in \<open>[0, 1]\<close>. A store may
  hold the same fingerprint row several times (the hash list given to \<^verbatim>\<open>insert_song\<close>
  may repeat a tuple); then one query hash collects several votes for one key, and the
  confidence, which is not clamped, exceeds 1: here it is 5.
\<close>

theorem confidence_above_one_counterexample:
  "insert_song ''song'' [(''aa'', 0, None), (''aa'', 0, None), (''aa'', 0, None),
                        (''aa'', 0, None), (''aa'', 0, None)] init_db
     = (1, \<lparr>songs = [(1, ''song'')],
            fingerprints = [(''aa'', 1, 0), (''aa'', 1, 0), (''aa'', 1, 0), (''aa'', 1, 0), (''aa'', 1, 0)],
            sqlite_sequence = 1\<rparr>)
   \<and> find_matches [(''aa'', 0, None)]
        \<lparr>songs = [(1, ''song'')],
         fingerprints = [(''aa'', 1, 0), (''aa'', 1, 0), (''aa'', 1, 0), (''aa'', 1, 0), (''aa'', 1, 0)],
         sqlite_sequence = 1\<rparr>
     = Inr (Some \<lparr>song_id = 1, song_name = Some ''song'', confidence = 5, aligned_matches = 5\<rparr>)
   \<and> \<not> (5 :: real) \<le> 1"
  by (simp add: insert_song_def init_db_def next_rowid_def find_matches_def query_def
      select_by_hash_def score_matches_def max_key_def MIN_MATCHES_def get_song_def)

text \<open>
  Claim C1, amended. For a non-empty list of query hashes and a store whose probe
  returns at least one row and whose best vote count is at least 5, \<^verbatim>\<open>find_matches\<close>
  returns a result whose \<open>aligned_matches\<close> is the best vote count, whose \<open>confidence\<close>
  is that count divided by the number of query hashes and is positive, whose \<open>song_id\<close>
  is the song id of a key with the best vote count, and whose \<open>song_name\<close> is the
  store's name for that id. The confidence is at most 1 when no fingerprint row occurs
  twice in the store.
\<close>

theorem find_matches_result:
  "query_hashes \<noteq> [] \<Longrightarrow> query query_hashes db \<noteq> [] \<Longrightarrow> 5 \<le> best_votes (query query_hashes db) \<Longrightarrow>
     \<exists>r d. find_matches query_hashes db = Inr (Some r)
       \<and> aligned_matches r = best_votes (query query_hashes db)
       \<and> confidence r = real (best_votes (query query_hashes db)) / real (length query_hashes)
       \<and> 0 < confidence r
       \<and> (distinct (fingerprints db) \<longrightarrow> confidence r \<le> 1)
       \<and> votes (query query_hashes db) (song_id r, d) = best_votes (query query_hashes db)
       \<and> (\<forall>k. votes (query query_hashes db) k \<le> votes (query query_hashes db) (song_id r, d))
       \<and> song_name r = get_song (song_id r) db"
proof -
  let ?ms = "query query_hashes db"
  assume q: "query_hashes \<noteq> []" and ms: "?ms \<noteq> []" and five: "5 \<le> best_votes ?ms"
  from score_matches_cases [OF ms, of query_hashes db] obtain k where
    k: "votes ?ms k = best_votes ?ms" and ge: "\<forall>k'. votes ?ms k' \<le> best_votes ?ms"
    and s: "score_matches query_hashes ?ms db =
               (if best_votes ?ms < MIN_MATCHES then Inr None
                else if length query_hashes = 0 then Inl ZeroDivisionError
                else Inr (Some \<lparr>song_id = fst k, song_name = get_song (fst k) db,
                                confidence = real (best_votes ?ms) / real (length query_hashes),
                                aligned_matches = best_votes ?ms\<rparr>))"
    by blast
  let ?r = "\<lparr>song_id = fst k, song_name = get_song (fst k) db,
             confidence = real (best_votes ?ms) / real (length query_hashes),
             aligned_matches = best_votes ?ms\<rparr>"
  from q five s have f: "find_matches query_hashes db = Inr (Some ?r)"
    by (simp add: find_matches_def MIN_MATCHES_def)
  from q five have pos: "0 < confidence ?r" by simp
  have le: "distinct (fingerprints db) \<longrightarrow> confidence ?r \<le> 1"
  proof
    assume "distinct (fingerprints db)"
    from votes_query_le [OF this, of query_hashes k] k
    have "best_votes ?ms \<le> length query_hashes" by simp
    with q show "confidence ?r \<le> 1" by simp
  qed
  have key: "votes ?ms (song_id ?r, snd k) = best_votes ?ms" using k by simp
  have top: "\<forall>k'. votes ?ms k' \<le> votes ?ms (song_id ?r, snd k)" using ge k by simp
  show ?thesis
    by (rule exI [of _ ?r], rule exI [of _ "snd k"]) (use f pos le key top in simp)
qed

theorem find_matches_result_witness:
  "find_matches [(''aa'', 0, None), (''bb'', 1, None), (''cc'', 2, None), (''dd'', 3, None), (''ee'', 4, None)]
     \<lparr>songs = [(1, ''song'')],
      fingerprints = [(''aa'', 1, 10), (''bb'', 1, 11), (''cc'', 1, 12), (''dd'', 1, 13), (''ee'', 1, 14)],
      sqlite_sequence = 1\<rparr>
   = Inr (Some \<lparr>song_id = 1, song_name = Some ''song'', confidence = 1, aligned_matches = 5\<rparr>)"
proof -
  let ?q = "[(''aa'', 0, None), (''bb'', 1, None), (''cc'', 2, None), (''dd'', 3, None), (''ee'', 4, None)]
              :: hash_tuple list"
  let ?db = "\<lparr>songs = [(1, ''song'')],
      fingerprints = [(''aa'', 1, 10), (''bb'', 1, 11), (''cc'', 1, 12), (''dd'', 1, 13), (''ee'', 1, 14)],
      sqlite_sequence = 1\<rparr>"
  have ms: "query ?q ?db = [(1, 10, 0), (1, 11, 1), (1, 12, 2), (1, 13, 3), (1, 14, 4)]"
    by (simp add: query_def select_by_hash_def)
  have bv: "best_votes (query ?q ?db) = 5"
    unfolding ms by (simp add: best_votes_def votes_def alignment_key_of_def)
  have h1: "?q \<noteq> []" by simp
  have h2: "query ?q ?db \<noteq> []" unfolding ms by simp
  have h3: "5 \<le> best_votes (query ?q ?db)" unfolding bv by simp
  have h4: "distinct (fingerprints ?db)" by simp
  from find_matches_result [OF h1 h2 h3] obtain r d where
    r: "find_matches ?q ?db = Inr (Some r)"
    and a: "aligned_matches r = best_votes (query ?q ?db)"
    and c: "confidence r = real (best_votes (query ?q ?db)) / real (length ?q)"
    and v: "votes (query ?q ?db) (song_id r, d) = best_votes (query ?q ?db)"
    and n: "song_name r = get_song (song_id r) ?db"
    by blast
  from v have "0 < votes (query ?q ?db) (song_id r, d)" unfolding bv by simp
  then have "song_id r = 1"
    unfolding ms by (auto simp: votes_positive_iff alignment_key_of_def)
  with a c n bv have "r = \<lparr>song_id = 1, song_name = Some ''song'', confidence = 1, aligned_matches = 5\<rparr>"
    by (simp add: get_song_def)
  with r show ?thesis by simp
qed

text \<open>
  Claim C2. \<^verbatim>\<open>find_matches\<close> returns \<^verbatim>\<open>None\<close>, and no error, exactly when the list
  of query hashes is empty, or the probe returns no row, or the best vote count is below
  \<open>MIN_MATCHES = 5\<close>; in every other case it returns a result.
\<close>

theorem find_matches_none_iff:
  "(find_matches query_hashes db = Inr None
      \<longleftrightarrow> (query_hashes = [] \<or> query query_hashes db = [] \<or> best_votes (query query_hashes db) < 5))
   \<and> (find_matches query_hashes db \<noteq> Inr None \<longrightarrow> (\<exists>r. find_matches query_hashes db = Inr (Some r)))
   \<and> (query query_hashes db \<noteq> [] \<longrightarrow>
        (best_votes (query query_hashes db) < 5 \<longleftrightarrow> (\<forall>k. votes (query query_hashes db) k < 5)))
   \<and> MIN_MATCHES = 5"
proof -
  let ?ms = "query query_hashes db"
  have a: "find_matches query_hashes db = Inr None
      \<longleftrightarrow> (query_hashes = [] \<or> ?ms = [] \<or> best_votes ?ms < 5)"
    and b: "find_matches query_hashes db \<noteq> Inr None \<longrightarrow> (\<exists>r. find_matches query_hashes db = Inr (Some r))"
    and c: "?ms \<noteq> [] \<longrightarrow> (best_votes ?ms < 5 \<longleftrightarrow> (\<forall>k. votes ?ms k < 5))"
  proof -
    consider "query_hashes = []" | "query_hashes \<noteq> []" "?ms = []" | "query_hashes \<noteq> []" "?ms \<noteq> []"
      by blast
    then have "(find_matches query_hashes db = Inr None
      \<longleftrightarrow> (query_hashes = [] \<or> ?ms = [] \<or> best_votes ?ms < 5))
      \<and> (find_matches query_hashes db \<noteq> Inr None \<longrightarrow> (\<exists>r. find_matches query_hashes db = Inr (Some r)))
      \<and> (?ms \<noteq> [] \<longrightarrow> (best_votes ?ms < 5 \<longleftrightarrow> (\<forall>k. votes ?ms k < 5)))"
    proof cases
      case 1
      then show ?thesis
        by (simp add: find_matches_def query_def)
    next
      case 2
      then show ?thesis by (simp add: find_matches_def score_matches_Nil)
    next
      case 3
      from score_matches_cases [OF 3(2), of query_hashes db] obtain k where
        k: "votes ?ms k = best_votes ?ms" and ge: "\<forall>k'. votes ?ms k' \<le> best_votes ?ms"
        and s: "score_matches query_hashes ?ms db =
               (if best_votes ?ms < MIN_MATCHES then Inr None
                else if length query_hashes = 0 then Inl ZeroDivisionError
                else Inr (Some \<lparr>song_id = fst k, song_name = get_song (fst k) db,
                                confidence = real (best_votes ?ms) / real (length query_hashes),
                                aligned_matches = best_votes ?ms\<rparr>))"
        by blast
      have "best_votes ?ms < 5 \<longleftrightarrow> (\<forall>k. votes ?ms k < 5)"
      proof
        assume "best_votes ?ms < 5"
        with ge show "\<forall>k. votes ?ms k < 5" by (meson le_less_trans)
      next
        assume "\<forall>k. votes ?ms k < 5"
        then have "votes ?ms k < 5" by (rule spec)
        with k show "best_votes ?ms < 5" by simp
      qed
      with 3 s show ?thesis
        by (simp add: find_matches_def MIN_MATCHES_def)
    qed
    then show "find_matches query_hashes db = Inr None
      \<longleftrightarrow> (query_hashes = [] \<or> ?ms = [] \<or> best_votes ?ms < 5)"
      and "find_matches query_hashes db \<noteq> Inr None \<longrightarrow> (\<exists>r. find_matches query_hashes db = Inr (Some r))"
      and "?ms \<noteq> [] \<longrightarrow> (best_votes ?ms < 5 \<longleftrightarrow> (\<forall>k. votes ?ms k < 5))"
      by blast+
  qed
  from a b c show ?thesis by (simp add: MIN_MATCHES_def)
qed

theorem find_matches_none_iff_witness:
  "find_matches [(''aa'', 0, None)] init_db = Inr None
   \<and> find_matches [] \<lparr>songs = [(1, ''song'')], fingerprints = [(''aa'', 1, 10)], sqlite_sequence = 1\<rparr> = Inr None
   \<and> find_matches [(''aa'', 0, None)] \<lparr>songs = [(1, ''song'')], fingerprints = [(''aa'', 1, 10)], sqlite_sequence = 1\<rparr> = Inr None
   \<and> (\<exists>r. find_matches [(''aa'', 0, None), (''bb'', 1, None), (''cc'', 2, None), (''dd'', 3, None), (''ee'', 4, None)]
     \<lparr>songs = [(1, ''song'')],
      fingerprints = [(''aa'', 1, 10), (''bb'', 1, 11), (''cc'', 1, 12), (''dd'', 1, 13), (''ee'', 1, 14)],
      sqlite_sequence = 1\<rparr> = Inr (Some r))"
proof -
  let ?q = "[(''aa'', 0, None), (''bb'', 1, None), (''cc'', 2, None), (''dd'', 3, None), (''ee'', 4, None)]
              :: hash_tuple list"
  let ?db = "\<lparr>songs = [(1, ''song'')],
      fingerprints = [(''aa'', 1, 10), (''bb'', 1, 11), (''cc'', 1, 12), (''dd'', 1, 13), (''ee'', 1, 14)],
      sqlite_sequence = 1\<rparr>"
  let ?db1 = "\<lparr>songs = [(1, ''song'')], fingerprints = [(''aa'', 1, 10)], sqlite_sequence = 1\<rparr>"
  have e0: "query [(''aa'', 0, None)] init_db = []"
    by (simp add: query_def select_by_hash_def init_db_def)
  have a: "find_matches [(''aa'', 0, None)] init_db = Inr None"
    using find_matches_none_iff [of "[(''aa'', 0, None)]" init_db] e0 by simp
  have b: "find_matches [] ?db1 = Inr None"
    using find_matches_none_iff [of "[]" ?db1] by simp
  have ms1: "query [(''aa'', 0, None)] ?db1 = [(1, 10, 0)]"
    by (simp add: query_def select_by_hash_def)
  have "best_votes (query [(''aa'', 0, None)] ?db1) < 5"
    unfolding ms1 by (simp add: best_votes_def votes_def alignment_key_of_def)
  then have c: "find_matches [(''aa'', 0, None)] ?db1 = Inr None"
    using find_matches_none_iff [of "[(''aa'', 0, None)]" ?db1] by simp
  have ms: "query ?q ?db = [(1, 10, 0), (1, 11, 1), (1, 12, 2), (1, 13, 3), (1, 14, 4)]"
    by (simp add: query_def select_by_hash_def)
  have bv: "best_votes (query ?q ?db) = 5"
    unfolding ms by (simp add: best_votes_def votes_def alignment_key_of_def)
  have "find_matches ?q ?db \<noteq> Inr None"
    using find_matches_none_iff [of ?q ?db] ms bv by simp
  with find_matches_none_iff [of ?q ?db] have d: "\<exists>r. find_matches ?q ?db = Inr (Some r)"
    by blast
  from a b c d show ?thesis by blast
qed

text \<open>
  Claim C9, as stated, asks for the same result on every permutation of the probe
  rows. The winner of a tie is the key that enters the dictionary first, so it depends
  on the order of the rows: with the same recording stored as songs 1 and 2, the rows in
  the order of the probe name song 1, and the same rows with the first two swapped name
  song 2.
\<close>

theorem probe_order_counterexample:
  "query [(''aa'', 0, None), (''bb'', 1, None), (''cc'', 2, None), (''dd'', 3, None), (''ee'', 4, None)]
     \<lparr>songs = [(1, ''one''), (2, ''two'')],
      fingerprints = [(''aa'', 1, 0), (''bb'', 1, 1), (''cc'', 1, 2), (''dd'', 1, 3), (''ee'', 1, 4),
                      (''aa'', 2, 0), (''bb'', 2, 1), (''cc'', 2, 2), (''dd'', 2, 3), (''ee'', 2, 4)],
      sqlite_sequence = 2\<rparr>
     = [(1, 0, 0), (2, 0, 0), (1, 1, 1), (2, 1, 1), (1, 2, 2), (2, 2, 2), (1, 3, 3), (2, 3, 3), (1, 4, 4), (2, 4, 4)]
   \<and> mset [(2, 0, 0), (1, 0, 0), (1, 1, 1), (2, 1, 1), (1, 2, 2), (2, 2, 2), (1, 3, 3), (2, 3, 3), (1, 4, 4), (2, 4, 4)]
     = mset [(1, 0, 0), (2, 0, 0), (1, 1, 1), (2, 1, 1), (1, 2, 2), (2, 2, 2), (1, 3, 3), (2, 3, 3), (1, 4, 4), (2, 4, 4 :: int)]
   \<and> score_matches [(''aa'', 0, None), (''bb'', 1, None), (''cc'', 2, None), (''dd'', 3, None), (''ee'', 4, None)]
        [(1, 0, 0), (2, 0, 0), (1, 1, 1), (2, 1, 1), (1, 2, 2), (2, 2, 2), (1, 3, 3), (2, 3, 3), (1, 4, 4), (2, 4, 4)]
        \<lparr>songs = [(1, ''one''), (2, ''two'')],
         fingerprints = [(''aa'', 1, 0), (''bb'', 1, 1), (''cc'', 1, 2), (''dd'', 1, 3), (''ee'', 1, 4),
                      (''aa'', 2, 0), (''bb'', 2, 1), (''cc'', 2, 2), (''dd'', 2, 3), (''ee'', 2, 4)],
         sqlite_sequence = 2\<rparr>
     = Inr (Some \<lparr>song_id = 1, song_name = Some ''one'', confidence = 1, aligned_matches = 5\<rparr>)
   \<and> score_matches [(''aa'', 0, None), (''bb'', 1, None), (''cc'', 2, None), (''dd'', 3, None), (''ee'', 4, None)]
        [(2, 0, 0), (1, 0, 0), (1, 1, 1), (2, 1, 1), (1, 2, 2), (2, 2, 2), (1, 3, 3), (2, 3, 3), (1, 4, 4), (2, 4, 4)]
        \<lparr>songs = [(1, ''one''), (2, ''two'')],
         fingerprints = [(''aa'', 1, 0), (''bb'', 1, 1), (''cc'', 1, 2), (''dd'', 1, 3), (''ee'', 1, 4),
                      (''aa'', 2, 0), (''bb'', 2, 1), (''cc'', 2, 2), (''dd'', 2, 3), (''ee'', 2, 4)],
         sqlite_sequence = 2\<rparr>
     = Inr (Some \<lparr>song_id = 2, song_name = Some ''two'', confidence = 1, aligned_matches = 5\<rparr>)"
  by (simp add: query_def select_by_hash_def score_matches_def max_key_def MIN_MATCHES_def get_song_def)

text \<open>
  Claim C9, amended. On two lists of probe rows that are permutations of each other
  the matcher agrees on whether there is a match, on \<open>aligned_matches\<close> and on
  \<open>confidence\<close>, and the song it names has a key with the best vote count; the whole
  result is the same when only one key has the best vote count.
\<close>

theorem score_matches_permutation:
  "mset ms = mset ms' \<Longrightarrow>
     (score_matches q ms db = Inr None \<longleftrightarrow> score_matches q ms' db = Inr None)
     \<and> (\<forall>r. score_matches q ms db = Inr (Some r) \<longrightarrow>
           (\<exists>r'. score_matches q ms' db = Inr (Some r')
              \<and> aligned_matches r' = aligned_matches r \<and> confidence r' = confidence r
              \<and> (\<exists>d. votes ms (song_id r', d) = aligned_matches r)))
     \<and> ((\<forall>k k'. votes ms k = best_votes ms \<and> votes ms k' = best_votes ms \<longrightarrow> k = k')
           \<longrightarrow> score_matches q ms' db = score_matches q ms db)
     \<and> (q \<noteq> [] \<longrightarrow> find_matches q db = score_matches q (query q db) db)"
proof -
  assume e: "mset ms = mset ms'"
  have fm: "q \<noteq> [] \<longrightarrow> find_matches q db = score_matches q (query q db) db"
    by (simp add: find_matches_def)
  show ?thesis
  proof (cases "ms = []")
    case True
    with e have "ms' = []" by simp
    with True fm show ?thesis by (simp add: score_matches_Nil)
  next
    case False
    with e have ne': "ms' \<noteq> []" by auto
    have bv: "best_votes ms' = best_votes ms" using best_votes_mset [OF e] by simp
    have vv: "\<And>k. votes ms' k = votes ms k" using votes_mset [OF e] by simp
    from score_matches_cases [OF False, of q db] obtain k where
      k: "votes ms k = best_votes ms"
      and s: "score_matches q ms db =
               (if best_votes ms < MIN_MATCHES then Inr None
                else if length q = 0 then Inl ZeroDivisionError
                else Inr (Some \<lparr>song_id = fst k, song_name = get_song (fst k) db,
                                confidence = real (best_votes ms) / real (length q),
                                aligned_matches = best_votes ms\<rparr>))"
      by blast
    from score_matches_cases [OF ne', of q db] bv vv obtain k' where
      k': "votes ms k' = best_votes ms"
      and s': "score_matches q ms' db =
               (if best_votes ms < MIN_MATCHES then Inr None
                else if length q = 0 then Inl ZeroDivisionError
                else Inr (Some \<lparr>song_id = fst k', song_name = get_song (fst k') db,
                                confidence = real (best_votes ms) / real (length q),
                                aligned_matches = best_votes ms\<rparr>))"
      by auto
    have a: "score_matches q ms db = Inr None \<longleftrightarrow> score_matches q ms' db = Inr None"
      by (simp add: s s')
    have b: "\<forall>r. score_matches q ms db = Inr (Some r) \<longrightarrow>
           (\<exists>r'. score_matches q ms' db = Inr (Some r')
              \<and> aligned_matches r' = aligned_matches r \<and> confidence r' = confidence r
              \<and> (\<exists>d. votes ms (song_id r', d) = aligned_matches r))"
    proof (intro allI impI)
      fix r
      assume r: "score_matches q ms db = Inr (Some r)"
      let ?r' = "\<lparr>song_id = fst k', song_name = get_song (fst k') db,
                  confidence = real (best_votes ms) / real (length q),
                  aligned_matches = best_votes ms\<rparr>"
      from r s have c: "\<not> best_votes ms < MIN_MATCHES" "length q \<noteq> 0"
        and r2: "r = \<lparr>song_id = fst k, song_name = get_song (fst k) db,
                      confidence = real (best_votes ms) / real (length q),
                      aligned_matches = best_votes ms\<rparr>"
        by (auto split: if_splits)
      from c s' have "score_matches q ms' db = Inr (Some ?r')" by simp
      moreover have "\<exists>d. votes ms (song_id ?r', d) = aligned_matches r"
        using k' r2 by (intro exI [of _ "snd k'"]) simp
      moreover have "aligned_matches ?r' = aligned_matches r" "confidence ?r' = confidence r"
        using r2 by simp_all
      ultimately show "\<exists>r'. score_matches q ms' db = Inr (Some r')
              \<and> aligned_matches r' = aligned_matches r \<and> confidence r' = confidence r
              \<and> (\<exists>d. votes ms (song_id r', d) = aligned_matches r)"
        by (intro exI [of _ ?r'] conjI)
    qed
    have c: "(\<forall>k k'. votes ms k = best_votes ms \<and> votes ms k' = best_votes ms \<longrightarrow> k = k')
           \<longrightarrow> score_matches q ms' db = score_matches q ms db"
    proof
      assume "\<forall>k k'. votes ms k = best_votes ms \<and> votes ms k' = best_votes ms \<longrightarrow> k = k'"
      with k k' have "k' = k" by blast
      with s s' show "score_matches q ms' db = score_matches q ms db" by simp
    qed
    from a b c fm show ?thesis by blast
  qed
qed

theorem score_matches_permutation_witness:
  "score_matches [(''aa'', 0, None), (''bb'', 1, None), (''cc'', 2, None), (''dd'', 3, None), (''ee'', 4, None)]
        [(1, 14, 4), (1, 13, 3), (1, 12, 2), (1, 11, 1), (1, 10, 0)]
        \<lparr>songs = [(1, ''song'')],
         fingerprints = [(''aa'', 1, 10), (''bb'', 1, 11), (''cc'', 1, 12), (''dd'', 1, 13), (''ee'', 1, 14)],
         sqlite_sequence = 1\<rparr>
   = Inr (Some \<lparr>song_id = 1, song_name = Some ''song'', confidence = 1, aligned_matches = 5\<rparr>)"
proof -
  let ?q = "[(''aa'', 0, None), (''bb'', 1, None), (''cc'', 2, None), (''dd'', 3, None), (''ee'', 4, None)]
              :: hash_tuple list"
  let ?db = "\<lparr>songs = [(1, ''song'')],
      fingerprints = [(''aa'', 1, 10), (''bb'', 1, 11), (''cc'', 1, 12), (''dd'', 1, 13), (''ee'', 1, 14)],
      sqlite_sequence = 1\<rparr>"
  let ?ms = "[(1, 10, 0), (1, 11, 1), (1, 12, 2), (1, 13, 3), (1, 14, 4)] :: (int \<times> int \<times> int) list"
  let ?ms' = "[(1, 14, 4), (1, 13, 3), (1, 12, 2), (1, 11, 1), (1, 10, 0)] :: (int \<times> int \<times> int) list"
  have e: "mset ?ms = mset ?ms'" by simp
  have s: "score_matches ?q ?ms ?db
             = Inr (Some \<lparr>song_id = 1, song_name = Some ''song'', confidence = 1, aligned_matches = 5\<rparr>)"
    by (simp add: score_matches_def max_key_def MIN_MATCHES_def get_song_def)
  have u: "\<forall>k k'. votes ?ms k = best_votes ?ms \<and> votes ?ms k' = best_votes ?ms \<longrightarrow> k = k'"
  proof (intro allI impI)
    fix k k'
    assume a: "votes ?ms k = best_votes ?ms \<and> votes ?ms k' = best_votes ?ms"
    have bv: "best_votes ?ms = 5" by (simp add: best_votes_def votes_def alignment_key_of_def)
    from a bv have "0 < votes ?ms k" "0 < votes ?ms k'" by simp_all
    then show "k = k'" by (auto simp: votes_positive_iff alignment_key_of_def)
  qed
  from score_matches_permutation [OF e, of ?q ?db] u have "score_matches ?q ?ms' ?db = score_matches ?q ?ms ?db"
    by blast
  with s show ?thesis by simp
qed

section \<open>Properties of the peak picker\<close>

lemma find_peaks_iff:
  "(t, f) \<in> set (find_peaks S None) \<longleftrightarrow>
     f < length S \<and> t < length (S ! f)
     \<and> S ! f ! t = maximum_filter S NEIGHBORHOOD_SIZE ! f ! t
     \<and> np_mean S + 2 * np_std S < S ! f ! t"
  by (auto simp: find_peaks_def Let_def)

lemma sum_list_zeros: "\<forall>x \<in> set xs. x = (0 :: real) \<Longrightarrow> sum_list xs = 0"
  by (induction xs) auto

lemma sum_list_squares_zeros: "\<forall>x \<in> set xs. x = (0 :: real) \<Longrightarrow> sum_list (map (\<lambda>x. (x - 0)\<^sup>2) xs) = 0"
  by (induction xs) auto

lemma all_zero_threshold:
  assumes "\<forall>row \<in> set S. \<forall>x \<in> set row. x = 0"
  shows "np_mean S + 2 * np_std S = 0"
proof -
  from assms have z: "\<forall>x \<in> set (concat S). x = 0" by auto
  have m: "np_mean S = 0" by (simp add: np_mean_def sum_list_zeros [OF z])
  have "np_std S = 0"
    unfolding np_std_def m using sum_list_squares_zeros [OF z] by simp
  with m show ?thesis by simp
qed

lemma all_zero_no_peaks:
  assumes "\<forall>row \<in> set S. \<forall>x \<in> set row. x = 0"
  shows "find_peaks S None = []"
proof (rule ccontr)
  assume "find_peaks S None \<noteq> []"
  then obtain p where p: "p \<in> set (find_peaks S None)" by (cases "find_peaks S None") auto
  obtain t f where tf: "p = (t, f)" by (cases p)
  from p tf find_peaks_iff [of t f S] have f: "f < length S" and t: "t < length (S ! f)"
    and gt: "np_mean S + 2 * np_std S < S ! f ! t" by simp_all
  from f have "S ! f \<in> set S" by simp
  moreover from t have "S ! f ! t \<in> set (S ! f)" by simp
  ultimately have "S ! f ! t = 0" using assms by blast
  with gt all_zero_threshold [OF assms] show False by simp
qed

lemma reflect_less: "0 < n \<Longrightarrow> reflect n j < n"
proof -
  assume n: "0 < n"
  let ?m = "j mod (2 * int n)"
  from n have "0 \<le> ?m" "?m < 2 * int n" by simp_all
  then show ?thesis by (auto simp: reflect_def Let_def)
qed

lemma reflect_inside: "i < n \<Longrightarrow> reflect n (int i) = i"
  by (simp add: reflect_def Let_def)

lemma window_self: "0 < sz \<Longrightarrow> i < n \<Longrightarrow> i \<in> set (window sz n i)"
proof -
  assume sz: "0 < sz" and i: "i < n"
  from sz have "sz div 2 \<in> set [0..<sz]" by simp
  then have "reflect n (int i - int (sz div 2) + int (sz div 2))
               \<in> (\<lambda>d. reflect n (int i - int (sz div 2) + int d)) ` set [0..<sz]"
    by (rule imageI)
  then have "reflect n (int i - int (sz div 2) + int (sz div 2)) \<in> set (window sz n i)"
    by (simp only: window_def set_map)
  with reflect_inside [OF i] show ?thesis by simp
qed

lemma window_less: "0 < n \<Longrightarrow> j \<in> set (window sz n i) \<Longrightarrow> j < n"
  by (auto simp: window_def reflect_less)

lemma neighbourhood_self:
  "0 < sz \<Longrightarrow> f < length S \<Longrightarrow> t < length (S ! f) \<Longrightarrow> S ! f ! t \<in> set (neighbourhood S sz f t)"
  using window_self [of sz f "length S"] window_self [of sz t "length (S ! f)"]
  by (auto simp: neighbourhood_def)

lemma fold_max_Max: "cells \<noteq> [] \<Longrightarrow> fold max (tl cells) (hd cells) = Max (set (cells :: real list))"
proof (cases cells)
  case Nil
  assume "cells \<noteq> []"
  with Nil show ?thesis by simp
next
  case (Cons a list)
  then show ?thesis by (simp only: list.sel Max.set_eq_fold)
qed

lemma maximum_filter_nth:
  assumes "0 < sz" "f < length S" "t < length (S ! f)"
  shows "maximum_filter S sz ! f ! t = Max (set (neighbourhood S sz f t))"
proof -
  from neighbourhood_self [OF assms] have "neighbourhood S sz f t \<noteq> []" by auto
  from fold_max_Max [OF this] assms show ?thesis
    by (simp add: maximum_filter_def Let_def)
qed

lemma neighbourhood_cells:
  assumes "\<forall>row \<in> set S. length row = T" "f < length S" "t < T"
    and "x \<in> set (neighbourhood S sz f t)"
  shows "x \<in> set (concat S)"
proof -
  from assms(1,2) have len: "length (S ! f) = T" by simp
  from assms(4) obtain f' t' where f': "f' \<in> set (window sz (length S) f)"
    and t': "t' \<in> set (window sz T t)" and x: "x = S ! f' ! t'"
    by (auto simp: neighbourhood_def len)
  from assms(2) have "0 < length S" by (cases S) simp_all
  from window_less [OF this f'] have fl: "f' < length S" .
  from assms(3) have "0 < T" by simp
  from window_less [OF this t'] have "t' < T" .
  with fl assms(1) have "t' < length (S ! f')" by simp
  then have "S ! f' ! t' \<in> set (S ! f')" by (rule nth_mem)
  moreover from fl have "S ! f' \<in> set S" by (rule nth_mem)
  ultimately show ?thesis unfolding x set_concat by (rule UN_I [rotated])
qed

text \<open>
  Claim C6. Without a threshold override, every pair \<open>(t, f)\<close> that \<^verbatim>\<open>find_peaks\<close>
  returns is a cell of the spectrogram whose magnitude \<open>S[f, t]\<close> equals the output of
  the size-20 maximum filter at that cell, the maximum over the cell's neighbourhood,
  and is strictly greater than \<open>mean(S) + 2 * std(S)\<close> taken over the whole spectrogram.
  So an all-zero spectrogram has no peaks.
\<close>

theorem find_peaks_local_max_above_threshold:
  "(\<forall>(t, f) \<in> set (find_peaks S None).
       f < length S \<and> t < length (S ! f)
       \<and> S ! f ! t = maximum_filter S 20 ! f ! t
       \<and> maximum_filter S 20 ! f ! t = Max (set (neighbourhood S 20 f t))
       \<and> S ! f ! t > np_mean S + 2 * np_std S)
   \<and> ((\<forall>row \<in> set S. \<forall>x \<in> set row. x = 0) \<longrightarrow> find_peaks S None = [])"
proof (intro conjI)
  show "\<forall>(t, f) \<in> set (find_peaks S None).
       f < length S \<and> t < length (S ! f)
       \<and> S ! f ! t = maximum_filter S 20 ! f ! t
       \<and> maximum_filter S 20 ! f ! t = Max (set (neighbourhood S 20 f t))
       \<and> S ! f ! t > np_mean S + 2 * np_std S"
  proof (clarify)
    fix t f
    assume "(t, f) \<in> set (find_peaks S None)"
    with find_peaks_iff [of t f S] have f: "f < length S" and t: "t < length (S ! f)"
      and m: "S ! f ! t = maximum_filter S 20 ! f ! t"
      and gt: "np_mean S + 2 * np_std S < S ! f ! t"
      by (simp_all add: NEIGHBORHOOD_SIZE_def)
    from maximum_filter_nth [OF _ f t, of 20] f t m gt
    show "f < length S \<and> t < length (S ! f)
       \<and> S ! f ! t = maximum_filter S 20 ! f ! t
       \<and> maximum_filter S 20 ! f ! t = Max (set (neighbourhood S 20 f t))
       \<and> S ! f ! t > np_mean S + 2 * np_std S"
      by simp
  qed
  show "(\<forall>row \<in> set S. \<forall>x \<in> set row. x = 0) \<longrightarrow> find_peaks S None = []"
    using all_zero_no_peaks [of S] by blast
qed

text \<open>
  A spectrogram of one frequency bin and ten frames with a single spike: its mean is 1,
  its standard deviation 3, the threshold 7, and the spike is the one peak.
\<close>

lemma sqrt_nine: "sqrt 9 = 3"
proof -
  have "sqrt 9 = sqrt (3\<^sup>2)" by simp
  also have "\<dots> = 3" by (simp only: real_sqrt_abs)
  finally show ?thesis .
qed

lemma np_mean_spike: "np_mean [[10, 0, 0, 0, 0, 0, 0, 0, 0, 0]] = 1"
  by (simp add: np_mean_def)

lemma np_std_spike: "np_std [[10, 0, 0, 0, 0, 0, 0, 0, 0, 0]] = 3"
  by (simp add: np_std_def np_mean_def sqrt_nine)


lemma maximum_filter_spike: "maximum_filter [[10, 0, 0, 0, 0, 0, 0, 0, 0, 0]] 20 ! 0 ! 0 = 10"
proof -
  let ?S = "[[10, 0, 0, 0, 0, 0, 0, 0, 0, 0]] :: spectrogram"
  have n: "maximum_filter ?S 20 ! 0 ! 0 = Max (set (neighbourhood ?S 20 0 0))"
    by (rule maximum_filter_nth) simp_all
  have "Max (set (neighbourhood ?S 20 0 0)) = 10"
  proof (rule Max_eqI)
    show "finite (set (neighbourhood ?S 20 0 0))" by simp
  next
    fix y
    assume "y \<in> set (neighbourhood ?S 20 0 0)"
    then have "y \<in> set (concat ?S)"
      by (rule neighbourhood_cells [where T = 10, rotated 3]) simp_all
    then show "y \<le> 10" by auto
  next
    have "?S ! 0 ! 0 \<in> set (neighbourhood ?S 20 0 0)"
      by (rule neighbourhood_self) simp_all
    then show "10 \<in> set (neighbourhood ?S 20 0 0)" by simp
  qed
  with n show ?thesis by simp
qed

theorem find_peaks_local_max_above_threshold_witness:
  "(0, 0) \<in> set (find_peaks [[10, 0, 0, 0, 0, 0, 0, 0, 0, 0]] None)
   \<and> [[10, 0, 0, 0, 0, 0, 0, 0, 0, 0]] ! 0 ! 0 > np_mean [[10, 0, 0, 0, 0, 0, 0, 0, 0, 0]] + 2 * np_std [[10, 0, 0, 0, 0, 0, 0, 0, 0, 0]]
   \<and> np_mean [[10, 0, 0, 0, 0, 0, 0, 0, 0, 0]] + 2 * np_std [[10, 0, 0, 0, 0, 0, 0, 0, 0, 0]] = 7
   \<and> find_peaks [[0, 0, 0], [0, 0, 0]] None = []"
proof -
  let ?S = "[[10, 0, 0, 0, 0, 0, 0, 0, 0, 0]] :: spectrogram"
  have m: "(0, 0) \<in> set (find_peaks ?S None)"
    unfolding find_peaks_iff by (simp add: maximum_filter_spike np_mean_spike np_std_spike NEIGHBORHOOD_SIZE_def)
  have "\<forall>(t, f) \<in> set (find_peaks ?S None).
       f < length ?S \<and> t < length (?S ! f)
       \<and> ?S ! f ! t = maximum_filter ?S 20 ! f ! t
       \<and> maximum_filter ?S 20 ! f ! t = Max (set (neighbourhood ?S 20 f t))
       \<and> ?S ! f ! t > np_mean ?S + 2 * np_std ?S"
    using find_peaks_local_max_above_threshold [of ?S] by (rule conjunct1)
  from bspec [OF this m] have gt: "?S ! 0 ! 0 > np_mean ?S + 2 * np_std ?S" by simp
  have z: "\<forall>row \<in> set [[0, 0, 0], [0, 0, 0 :: real]]. \<forall>x \<in> set row. x = 0" by simp
  from find_peaks_local_max_above_threshold [of "[[0, 0, 0], [0, 0, 0]]"] z
  have e: "find_peaks [[0, 0, 0], [0, 0, 0]] None = []" by blast
  have "np_mean ?S + 2 * np_std ?S = 7" by (simp add: np_mean_spike np_std_spike)
  with m gt e show ?thesis by blast
qed

end
